theory Spec2Isabelle
  imports Complex_Main "HOL-Library.AList"
begin

section \<open>Data model of ExamSeatingAllocator.tsx\<close>

text \<open>
  The interfaces of the component, as records. JavaScript numbers that hold student
  counts, capacities and seat numbers are integers here (the form parses them with
  \<^verbatim>\<open>parseInt(..) || 0\<close>, the loader with \<^verbatim>\<open>parseInt\<close>); a capacity that does not
  parse (\<^verbatim>\<open>NaN\<close>) is not a value of this model. Optional fields are options. The field
  \<^verbatim>\<open>id\<close> of a section is \<open>sid\<close>, \<^verbatim>\<open>section\<close> is \<open>sect\<close>, and the fields of an
  allocation that share a name with a field of a section carry the prefix \<open>a\<close>.
\<close>

record Section =
  sid :: int
  branch :: string
  sect :: string
  students :: int

record Room =
  no :: string
  capacity :: int
  rows :: "int list"

record RoomBlock =
  name :: string
  rooms :: "Room list"

text \<open>The type \<^verbatim>\<open>Room & { blockName: string }\<close> of the flattened room lists.\<close>

record BRoom = Room +
  rblockName :: string

record Allocation =
  abranch :: string
  asect :: string
  roomNo :: string
  astudents :: int
  startSeat :: "int option"
  endSeat :: "int option"
  partial :: "bool option"
  emergency :: "bool option"
  error :: "bool option"
  blockName :: "string option"

text \<open>
  \<^verbatim>\<open>Record<string, number>\<close>: keys in insertion order, each key once. Room numbers are
  taken not to be names of properties that every JavaScript object inherits.
\<close>

type_synonym RoomUsage = "(string \<times> int) list"

text \<open>\<^verbatim>\<open>roomUsage[k] || 0\<close>: a missing key and a stored zero both read as 0.\<close>

definition usageOf :: "RoomUsage \<Rightarrow> string \<Rightarrow> int" where
  "usageOf roomUsage k = (case map_of roomUsage k of None \<Rightarrow> 0 | Some v \<Rightarrow> v)"

text \<open>\<^verbatim>\<open>!r.error\<close> is true for a record without the field.\<close>

definition isError :: "Allocation \<Rightarrow> bool" where
  "isError a = (error a = Some True)"

section \<open>Helpers shared by the four strategies\<close>

definition withBlock :: "string \<Rightarrow> Room \<Rightarrow> BRoom" where
  "withBlock bn room =
     \<lparr>no = no room, capacity = capacity room, rows = rows room, rblockName = bn\<rparr>"

text \<open>
  \<^verbatim>\<open>roomBlocks.flatMap(block => block.rooms.map(room => ({ ...room, blockName: block.name })))
     .sort((a, b) => b.capacity - a.capacity)\<close>; the sort of the language is stable.
\<close>

definition flattenRooms :: "RoomBlock list \<Rightarrow> BRoom list" where
  "flattenRooms roomBlocks =
     concat (map (\<lambda>block. map (withBlock (name block)) (rooms block)) roomBlocks)"

definition sortedRooms :: "RoomBlock list \<Rightarrow> BRoom list" where
  "sortedRooms roomBlocks = sort_key (\<lambda>r. - capacity r) (flattenRooms roomBlocks)"

text \<open>
  \<^verbatim>\<open>sections.filter(s => s.branch && s.section && s.students > 0).map(s => ({ ...s }))\<close>
  followed by \<^verbatim>\<open>sectionLeft.sort((a, b) => b.students - a.students)\<close>.
\<close>

definition validSection :: "Section \<Rightarrow> bool" where
  "validSection s = (branch s \<noteq> [] \<and> sect s \<noteq> [] \<and> students s > 0)"

definition sortedSections :: "Section list \<Rightarrow> Section list" where
  "sortedSections sections = sort_key (\<lambda>s. - students s) (filter validSection sections)"

text \<open>\<^verbatim>\<open>allRooms.some(r => (roomUsage[r.no] || 0) > 0)\<close>\<close>

definition anyRoomHasStudents :: "BRoom list \<Rightarrow> RoomUsage \<Rightarrow> bool" where
  "anyRoomHasStudents allRooms roomUsage = list_ex (\<lambda>r. usageOf roomUsage (no r) > 0) allRooms"

text \<open>The record pushed for an unseatable remainder.\<close>

definition errorRecord :: "Section \<Rightarrow> int \<Rightarrow> Allocation" where
  "errorRecord s remaining =
     \<lparr>abranch = branch s, asect = sect s, roomNo = ''NO SPACE'', astudents = remaining,
      startSeat = None, endSeat = None, partial = None, emergency = None,
      error = Some True, blockName = None\<rparr>"

section \<open>Strategies 1 and 2: Simple Greedy and Greedy with Min Chunk\<close>

text \<open>
  The guard of lines 175-185: \<open>True\<close> when the room is skipped (\<^verbatim>\<open>continue\<close>).
\<close>

definition guardSkips :: "int \<Rightarrow> BRoom list \<Rightarrow> RoomUsage \<Rightarrow> int \<Rightarrow> int \<Rightarrow> int \<Rightarrow> bool" where
  "guardSkips minChunk allRooms roomUsage used toAllocate remaining =
     (if used = 0 \<and> toAllocate < minChunk \<and> remaining = toAllocate
      then anyRoomHasStudents allRooms roomUsage
      else toAllocate < minChunk \<and> remaining > minChunk)"

definition greedyRecord :: "Section \<Rightarrow> BRoom \<Rightarrow> int \<Rightarrow> int \<Rightarrow> Allocation" where
  "greedyRecord s room used toAllocate =
     \<lparr>abranch = branch s, asect = sect s, roomNo = no room, astudents = toAllocate,
      startSeat = Some (used + 1), endSeat = Some (used + toAllocate),
      partial = Some (toAllocate \<noteq> students s), emergency = None,
      error = None, blockName = Some (rblockName room)\<rparr>"

text \<open>
  The inner loop \<^verbatim>\<open>for (const room of allRooms)\<close> for one section; the state is
  \<open>(remaining, roomUsage, result)\<close>.
\<close>

fun scanRooms ::
  "int \<Rightarrow> BRoom list \<Rightarrow> Section \<Rightarrow> BRoom list \<Rightarrow> int \<times> RoomUsage \<times> Allocation list
     \<Rightarrow> int \<times> RoomUsage \<times> Allocation list" where
  "scanRooms minChunk allRooms s [] st = st"
| "scanRooms minChunk allRooms s (room # rest) (remaining, roomUsage, result) =
     (if remaining = 0 then (remaining, roomUsage, result)
      else
        let used = usageOf roomUsage (no room);
            available = capacity room - used
        in
          if available \<le> 0 then scanRooms minChunk allRooms s rest (remaining, roomUsage, result)
          else
            let toAllocate = min available remaining
            in
              if guardSkips minChunk allRooms roomUsage used toAllocate remaining
              then scanRooms minChunk allRooms s rest (remaining, roomUsage, result)
              else scanRooms minChunk allRooms s rest
                     (remaining - toAllocate,
                      AList.update (no room) (used + toAllocate) roomUsage,
                      result @ [greedyRecord s room used toAllocate]))"

text \<open>The outer loop \<^verbatim>\<open>for (const section of sectionLeft)\<close>.\<close>

fun greedySections ::
  "int \<Rightarrow> BRoom list \<Rightarrow> Section list \<Rightarrow> RoomUsage \<times> Allocation list
     \<Rightarrow> RoomUsage \<times> Allocation list" where
  "greedySections minChunk allRooms [] st = st"
| "greedySections minChunk allRooms (s # rest) (roomUsage, result) =
     (case scanRooms minChunk allRooms s allRooms (students s, roomUsage, result) of
        (remaining, roomUsage', result') \<Rightarrow>
          greedySections minChunk allRooms rest
            (roomUsage',
             if remaining > 0 then result' @ [errorRecord s remaining] else result'))"

text \<open>Both functions return \<^verbatim>\<open>{ result, roomUsage }\<close>, here the pair.\<close>

definition allocateSimpleGreedy ::
  "RoomBlock list \<Rightarrow> Section list \<Rightarrow> int \<Rightarrow> Allocation list \<times> RoomUsage" where
  "allocateSimpleGreedy roomBlocks sections minChunk =
     (case greedySections minChunk (sortedRooms roomBlocks) (sortedSections sections) ([], []) of
        (roomUsage, result) \<Rightarrow> (result, roomUsage))"

text \<open>The body of \<^verbatim>\<open>allocateGreedyMinChunk\<close> is the same text as that of Simple Greedy.\<close>

definition allocateGreedyMinChunk ::
  "RoomBlock list \<Rightarrow> Section list \<Rightarrow> int \<Rightarrow> Allocation list \<times> RoomUsage" where
  "allocateGreedyMinChunk roomBlocks sections minChunk =
     (case greedySections minChunk (sortedRooms roomBlocks) (sortedSections sections) ([], []) of
        (roomUsage, result) \<Rightarrow> (result, roomUsage))"

section \<open>Strategy 3: Greedy Lookahead\<close>

text \<open>\<^verbatim>\<open>Array.prototype.findIndex\<close>, with \<open>None\<close> for \<^verbatim>\<open>-1\<close>.\<close>

fun findIndex :: "('a \<Rightarrow> bool) \<Rightarrow> 'a list \<Rightarrow> nat option" where
  "findIndex P [] = None"
| "findIndex P (x # xs) = (if P x then Some 0 else map_option Suc (findIndex P xs))"

text \<open>\<^verbatim>\<open>xs.splice(i, 1)\<close>\<close>

definition removeAt :: "nat \<Rightarrow> 'a list \<Rightarrow> 'a list" where
  "removeAt i xs = take i xs @ drop (Suc i) xs"

text \<open>
  Lines 298-306: the scan for the largest section that fits whole; the state is
  \<open>(bestIdx, bestChunk)\<close>, started at \<open>(None, 0)\<close>.
\<close>

fun bestScan :: "int \<Rightarrow> Section list \<Rightarrow> nat \<Rightarrow> nat option \<times> int \<Rightarrow> nat option \<times> int" where
  "bestScan seatsLeft [] i st = st"
| "bestScan seatsLeft (s # rest) i (bestIdx, bestChunk) =
     (if students s \<le> seatsLeft \<and> students s > bestChunk
      then bestScan seatsLeft rest (Suc i) (Some i, students s)
      else bestScan seatsLeft rest (Suc i) (bestIdx, bestChunk))"

text \<open>
  The two guards of the loop, \<open>True\<close> when the loop is left (\<^verbatim>\<open>break\<close>). In the first,
  \<open>s\<close> and \<open>sAgain\<close> are both \<^verbatim>\<open>sectionLeft[bestIdx]\<close>, as in lines 310 and 317.
\<close>

definition wholeGuardBreaks ::
  "int \<Rightarrow> BRoom list \<Rightarrow> RoomUsage \<Rightarrow> BRoom \<Rightarrow> int \<Rightarrow> Section \<Rightarrow> Section \<Rightarrow> bool" where
  "wholeGuardBreaks minChunk allRooms roomUsage room seatsLeft s sAgain =
     (if capacity room - seatsLeft = 0 \<and> students s < minChunk \<and> students s = students sAgain
      then anyRoomHasStudents allRooms roomUsage
      else students s < minChunk \<and> students s \<noteq> students sAgain)"

definition partialGuardBreaks ::
  "int \<Rightarrow> BRoom list \<Rightarrow> RoomUsage \<Rightarrow> BRoom \<Rightarrow> int \<Rightarrow> Section \<Rightarrow> int \<Rightarrow> bool" where
  "partialGuardBreaks minChunk allRooms roomUsage room seatsLeft s chunk =
     (if capacity room - seatsLeft = 0 \<and> chunk < minChunk \<and> students s = chunk
      then anyRoomHasStudents allRooms roomUsage
      else chunk < minChunk \<and> students s > minChunk)"

definition perfectRecord :: "Section \<Rightarrow> BRoom \<Rightarrow> int \<Rightarrow> Allocation" where
  "perfectRecord s room seatsLeft =
     \<lparr>abranch = branch s, asect = sect s, roomNo = no room, astudents = seatsLeft,
      startSeat = Some 1, endSeat = Some seatsLeft, partial = None, emergency = None,
      error = None, blockName = Some (rblockName room)\<rparr>"

definition wholeRecord :: "Section \<Rightarrow> BRoom \<Rightarrow> int \<Rightarrow> Allocation" where
  "wholeRecord s room seatsLeft =
     \<lparr>abranch = branch s, asect = sect s, roomNo = no room, astudents = students s,
      startSeat = Some (capacity room - seatsLeft + 1),
      endSeat = Some (capacity room - seatsLeft + students s),
      partial = None, emergency = None, error = None, blockName = Some (rblockName room)\<rparr>"

definition partialRecord :: "Section \<Rightarrow> BRoom \<Rightarrow> int \<Rightarrow> int \<Rightarrow> Allocation" where
  "partialRecord s room seatsLeft chunk =
     \<lparr>abranch = branch s, asect = sect s, roomNo = no room, astudents = chunk,
      startSeat = Some (capacity room - seatsLeft + 1),
      endSeat = Some (capacity room - seatsLeft + chunk),
      partial = Some True, emergency = None, error = None,
      blockName = Some (rblockName room)\<rparr>"

lemma bestScan_bound:
  "bestScan seatsLeft xs i st = (Some j, c) \<Longrightarrow> fst st = Some j \<or> (i \<le> j \<and> j < i + length xs)"
proof (induction xs arbitrary: i st)
  case Nil
  then show ?case by simp
next
  case (Cons s rest)
  obtain bi bc where st: "st = (bi, bc)" by (cases st)
  show ?case
  proof (cases "students s \<le> seatsLeft \<and> students s > bc")
    case True
    with Cons.prems st have "bestScan seatsLeft rest (Suc i) (Some i, students s) = (Some j, c)"
      by simp
    from Cons.IH [OF this] show ?thesis by auto
  next
    case False
    with Cons.prems st have "bestScan seatsLeft rest (Suc i) (bi, bc) = (Some j, c)"
      by auto
    from Cons.IH [OF this] st show ?thesis by auto
  qed
qed

lemma bestScan_index:
  "fst (bestScan seatsLeft xs 0 (None, 0)) = Some j \<Longrightarrow> j < length xs"
  using bestScan_bound [of seatsLeft xs 0 "(None, 0)" j "snd (bestScan seatsLeft xs 0 (None, 0))"]
  by (cases "bestScan seatsLeft xs 0 (None, 0)") auto

lemma length_removeAt: "i < length xs \<Longrightarrow> length (removeAt i xs) = length xs - 1"
  by (simp add: removeAt_def)

text \<open>
  The loop \<^verbatim>\<open>while (seatsLeft > 0 && sectionLeft.length > 0)\<close> of lines 297-360 for one
  room; the state is \<open>(seatsLeft, sectionLeft, allocationsForRoom)\<close>. The sort of line 333
  changes \<^verbatim>\<open>sectionLeft\<close> also when the loop is then left.
\<close>

function fillRoom ::
  "int \<Rightarrow> BRoom list \<Rightarrow> RoomUsage \<Rightarrow> BRoom \<Rightarrow> int \<times> Section list \<times> Allocation list
     \<Rightarrow> int \<times> Section list \<times> Allocation list" where
  "fillRoom minChunk allRooms roomUsage room (seatsLeft, sectionLeft, allocs) =
     (if seatsLeft > 0 \<and> sectionLeft \<noteq> [] then
        (case fst (bestScan seatsLeft sectionLeft 0 (None, 0)) of
           Some bestIdx \<Rightarrow>
             if wholeGuardBreaks minChunk allRooms roomUsage room seatsLeft
                  (sectionLeft ! bestIdx) (sectionLeft ! bestIdx)
             then (seatsLeft, sectionLeft, allocs)
             else fillRoom minChunk allRooms roomUsage room
                    (seatsLeft - students (sectionLeft ! bestIdx),
                     removeAt bestIdx sectionLeft,
                     allocs @ [wholeRecord (sectionLeft ! bestIdx) room seatsLeft])
         | None \<Rightarrow>
             (case sort_key (\<lambda>s. - students s) sectionLeft of
                [] \<Rightarrow> (seatsLeft, [], allocs)
              | s # others \<Rightarrow>
                  if students s - seatsLeft > 0 \<and> students s - seatsLeft < minChunk
                     \<and> seatsLeft < minChunk
                  then (seatsLeft, s # others, allocs)
                  else if partialGuardBreaks minChunk allRooms roomUsage room seatsLeft s
                            (min seatsLeft (students s))
                  then (seatsLeft, s # others, allocs)
                  else fillRoom minChunk allRooms roomUsage room
                         (seatsLeft - min seatsLeft (students s),
                          (if students s - min seatsLeft (students s) = 0 then others
                           else s\<lparr>students := students s - min seatsLeft (students s)\<rparr> # others),
                          allocs @ [partialRecord s room seatsLeft (min seatsLeft (students s))])))
      else (seatsLeft, sectionLeft, allocs))"
  by pat_completeness auto
termination
  apply (relation "measure (\<lambda>(minChunk, allRooms, roomUsage, room, seatsLeft, sectionLeft, allocs).
                   2 * length sectionLeft + (if seatsLeft > 0 then 1 else 0))")
  apply simp
  subgoal for minChunk allRooms roomUsage room seatsLeft sectionLeft allocs s others
    using length_sort [of "\<lambda>s. - students s" sectionLeft]
    by (auto simp: min_def split: if_splits)
  subgoal for minChunk allRooms roomUsage room seatsLeft sectionLeft allocs bestIdx
    using bestScan_index [of seatsLeft sectionLeft bestIdx]
    by (cases sectionLeft) (auto simp: length_removeAt)
  done

declare fillRoom.simps [simp del]

text \<open>Lines 277-365: the loop over the rooms; the state is \<open>(sectionLeft, roomUsage, result)\<close>.\<close>

fun lookaheadRooms ::
  "int \<Rightarrow> BRoom list \<Rightarrow> BRoom list \<Rightarrow> Section list \<times> RoomUsage \<times> Allocation list
     \<Rightarrow> Section list \<times> RoomUsage \<times> Allocation list" where
  "lookaheadRooms minChunk allRooms [] st = st"
| "lookaheadRooms minChunk allRooms (room # rest) (sectionLeft, roomUsage, result) =
     (case fillRoom minChunk allRooms roomUsage room
             (case findIndex (\<lambda>s. students s = capacity room) sectionLeft of
                Some perfectIdx \<Rightarrow>
                  (0, removeAt perfectIdx sectionLeft,
                   [perfectRecord (sectionLeft ! perfectIdx) room (capacity room)])
              | None \<Rightarrow> (capacity room, sectionLeft, [])) of
        (seatsLeft, sectionLeft', allocationsForRoom) \<Rightarrow>
          lookaheadRooms minChunk allRooms rest
            (sectionLeft',
             if allocationsForRoom \<noteq> []
             then AList.update (no room) (capacity room - seatsLeft) roomUsage
             else roomUsage,
             result @ allocationsForRoom))"

definition allocateGreedyLookahead ::
  "RoomBlock list \<Rightarrow> Section list \<Rightarrow> int \<Rightarrow> Allocation list \<times> RoomUsage" where
  "allocateGreedyLookahead roomBlocks sections minChunk =
     (case lookaheadRooms minChunk (sortedRooms roomBlocks) (sortedRooms roomBlocks)
             (sortedSections sections, [], []) of
        (sectionLeft, roomUsage, result) \<Rightarrow>
          (result @ map (\<lambda>s. errorRecord s (students s))
                       (filter (\<lambda>s. students s > 0) sectionLeft),
           roomUsage))"

section \<open>Strategy 4: Best-Fit / First-Fit Decreasing with block unlock\<close>

text \<open>The room order of lines 390-413, block by block.\<close>

definition orderedRoomBlocks :: "string list list" where
  "orderedRoomBlocks =
     [[''APJ-1'', ''APJ-2'', ''APJ-3'', ''APJ-4'', ''APJ-5'', ''APJ-6'', ''APJ-7'', ''APJ-8'',
       ''APJ-9'', ''APJ-10'', ''APJ-11''],
      [''S-01'', ''S-02'', ''S-03'', ''S-04''],
      [''002/8A'', ''003/8A'', ''102/8A'', ''103/8A'', ''110/8A''],
      [''13/5'', ''14/5'', ''15/5'', ''17/5'', ''22/5'', ''24/5'', ''27/5'', ''28/5''],
      [''116/5'', ''119/5'', ''138/5''],
      [''215/5'', ''216/5'', ''217/5'', ''219/5'', ''221/5'', ''222/5''],
      [''301/5'', ''305/5'', ''306/5'', ''307/5'', ''311/5'', ''312/5''],
      [''113/6'', ''114/6'', ''117/6'', ''127/6''],
      [''313/6'', ''314/6''],
      [''13/4'', ''14/4'', ''17/4'', ''24/4''],
      [''MPC-01'', ''MPC-02'']]"

text \<open>
  \<^verbatim>\<open>roomToBlockIdx\<close>: each room number is assigned the index of its block, a later
  assignment replacing an earlier one.
\<close>

definition roomToBlockIdx :: "string list list \<Rightarrow> string \<Rightarrow> nat option" where
  "roomToBlockIdx blocks =
     map_of (rev (concat (map (\<lambda>(idx, block). map (\<lambda>roomNo. (roomNo, idx)) block)
                              (enumerate 0 blocks))))"

text \<open>
  Lines 420-422: the first block of the catalog that has a room of this number, and the
  first such room in it; \<open>None\<close> when the catalog has no room of this number, so that
  \<^verbatim>\<open>blockObj\<close> and \<^verbatim>\<open>roomObj\<close> are undefined.
\<close>

definition lookupRoom :: "RoomBlock list \<Rightarrow> string \<Rightarrow> BRoom option" where
  "lookupRoom roomBlocks roomNo' =
     (case find (\<lambda>b. list_ex (\<lambda>r. no r = roomNo') (rooms b)) roomBlocks of
        None \<Rightarrow> None
      | Some blockObj \<Rightarrow>
          (case find (\<lambda>r. no r = roomNo') (rooms blockObj) of
             None \<Rightarrow> None
           | Some roomObj \<Rightarrow> Some (withBlock (name blockObj) roomObj)))"

text \<open>
  Lines 418-424: one room object for every number of the order, found or not. The source
  asserts that the room is found (\<^verbatim>\<open>roomObj!\<close>) and does not check it: for a number the
  catalog lacks it builds \<^verbatim>\<open>{ blockName: "" }\<close>, an object whose \<^verbatim>\<open>no\<close> and \<^verbatim>\<open>capacity\<close>
  are undefined. That object is \<open>None\<close> here.
\<close>

definition orderedRooms :: "string list list \<Rightarrow> RoomBlock list \<Rightarrow> BRoom option list" where
  "orderedRooms blocks roomBlocks = map (lookupRoom roomBlocks) (concat blocks)"

text \<open>
  \<^verbatim>\<open>room.no\<close> as the property key of \<^verbatim>\<open>roomUsage[room.no]\<close> and
  \<^verbatim>\<open>roomToBlockIdx[room.no]\<close>: an undefined number is the key \<^verbatim>\<open>"undefined"\<close>.
\<close>

definition roomKey :: "BRoom option \<Rightarrow> string" where
  "roomKey room = (case room of None \<Rightarrow> ''undefined'' | Some r \<Rightarrow> no r)"

text \<open>
  The usage map of this strategy can hold \<^verbatim>\<open>NaN\<close>, which is the value \<open>None\<close>;
  \<^verbatim>\<open>roomUsage[k] || 0\<close> reads a missing key, a zero and \<^verbatim>\<open>NaN\<close> as 0.
\<close>

type_synonym NumUsage = "(string \<times> int option) list"

definition usedOf :: "NumUsage \<Rightarrow> string \<Rightarrow> int" where
  "usedOf roomUsage k = (case map_of roomUsage k of Some (Some v) \<Rightarrow> v | _ \<Rightarrow> 0)"

text \<open>
  What the strategy pushes on \<^verbatim>\<open>result\<close>: a record as the other strategies have them,
  or the record of lines 496-505 for a room object without number and capacity, which
  is \<^verbatim>\<open>{ branch, section, roomNo: undefined, students: NaN, startSeat: used + 1,
  endSeat: NaN, partial: true, blockName: "" }\<close> and is given here by its branch,
  section and start seat.
\<close>

datatype Pushed = Rec Allocation | NaNRec string string int

text \<open>\<^verbatim>\<open>if (blockIdx > maxBlockIdx) continue\<close>; an undefined index compares false.\<close>

definition blockLocked :: "string list list \<Rightarrow> nat \<Rightarrow> string \<Rightarrow> bool" where
  "blockLocked blocks maxBlockIdx roomNo' =
     (case roomToBlockIdx blocks roomNo' of None \<Rightarrow> False | Some blockIdx \<Rightarrow> blockIdx > maxBlockIdx)"

text \<open>\<^verbatim>\<open>allRooms.some(r => (roomUsage[r.no] || 0) > 0)\<close> over these room objects.\<close>

definition anyRoomHasStudentsFFD :: "BRoom option list \<Rightarrow> NumUsage \<Rightarrow> bool" where
  "anyRoomHasStudentsFFD allRooms roomUsage =
     list_ex (\<lambda>room. usedOf roomUsage (roomKey room) > 0) allRooms"

text \<open>
  Lines 432-444, the best-fit scan; the state is \<open>(bestRoomIdx, bestRoomSpace)\<close>, where
  \<open>None\<close> stands for \<^verbatim>\<open>-1\<close> and for \<^verbatim>\<open>Infinity\<close>, and the index is kept together with
  \<^verbatim>\<open>allRooms[bestRoomIdx]\<close>. For a room object without capacity \<^verbatim>\<open>available\<close> is
  \<^verbatim>\<open>NaN\<close> and the test of line 440 is false.
\<close>

fun bestFitScan ::
  "string list list \<Rightarrow> nat \<Rightarrow> NumUsage \<Rightarrow> int \<Rightarrow> BRoom option list \<Rightarrow> nat
     \<Rightarrow> (nat \<times> BRoom) option \<times> int option \<Rightarrow> (nat \<times> BRoom) option \<times> int option" where
  "bestFitScan blocks maxBlockIdx roomUsage remaining [] i st = st"
| "bestFitScan blocks maxBlockIdx roomUsage remaining (room # rest) i (bestRoom, bestRoomSpace) =
     (if blockLocked blocks maxBlockIdx (roomKey room)
      then bestFitScan blocks maxBlockIdx roomUsage remaining rest (Suc i) (bestRoom, bestRoomSpace)
      else
        case room of
          None \<Rightarrow>
            bestFitScan blocks maxBlockIdx roomUsage remaining rest (Suc i) (bestRoom, bestRoomSpace)
        | Some r \<Rightarrow>
            let used = usedOf roomUsage (no r);
                available = capacity r - used
            in
              if available \<ge> remaining
                 \<and> (case bestRoomSpace of None \<Rightarrow> True | Some space \<Rightarrow> available < space)
              then bestFitScan blocks maxBlockIdx roomUsage remaining rest (Suc i)
                     (Some (i, r), Some available)
              else bestFitScan blocks maxBlockIdx roomUsage remaining rest (Suc i)
                     (bestRoom, bestRoomSpace))"

text \<open>The guard of lines 449-456, \<open>True\<close> when the loop is left.\<close>

definition bestGuardBreaks ::
  "int \<Rightarrow> BRoom option list \<Rightarrow> NumUsage \<Rightarrow> Section \<Rightarrow> int \<Rightarrow> int \<Rightarrow> bool" where
  "bestGuardBreaks minChunk allRooms roomUsage s used remaining =
     (if used = 0 \<and> remaining < minChunk \<and> remaining = students s
      then anyRoomHasStudentsFFD allRooms roomUsage
      else remaining < minChunk \<and> remaining \<noteq> students s)"

definition bestRecord :: "Section \<Rightarrow> BRoom \<Rightarrow> int \<Rightarrow> int \<Rightarrow> Allocation" where
  "bestRecord s room used remaining =
     \<lparr>abranch = branch s, asect = sect s, roomNo = no room, astudents = remaining,
      startSeat = Some (used + 1), endSeat = Some (used + remaining),
      partial = None, emergency = None, error = None, blockName = Some (rblockName room)\<rparr>"

text \<open>
  Lines 468-471 and 508-511: the cursor moves on when every room of the current block is
  in use and the block is not the last.
\<close>

definition unlock :: "string list list \<Rightarrow> NumUsage \<Rightarrow> nat \<Rightarrow> nat" where
  "unlock blocks roomUsage maxBlockIdx =
     (if list_all (\<lambda>rn. usedOf roomUsage rn > 0) (blocks ! maxBlockIdx)
         \<and> int maxBlockIdx < int (length blocks) - 1
      then Suc maxBlockIdx else maxBlockIdx)"

text \<open>The guard of lines 486-495, \<open>True\<close> when the room is skipped.\<close>

definition guardSkipsFFD ::
  "int \<Rightarrow> BRoom option list \<Rightarrow> NumUsage \<Rightarrow> int \<Rightarrow> int \<Rightarrow> int \<Rightarrow> bool" where
  "guardSkipsFFD minChunk allRooms roomUsage used toAllocate remaining =
     (if used = 0 \<and> toAllocate < minChunk \<and> remaining = toAllocate
      then anyRoomHasStudentsFFD allRooms roomUsage
      else toAllocate < minChunk \<and> remaining > minChunk)"

text \<open>
  Lines 477-515, the first-fit scan, up to the room it places in: \<open>NoFit\<close> when
  \<^verbatim>\<open>allocated\<close> stays false, \<open>Fit room used toAllocate\<close> for a room with a capacity,
  and \<open>FitNaN used\<close> for a room object without one. For that object \<^verbatim>\<open>available\<close> and
  \<^verbatim>\<open>toAllocate\<close> are \<^verbatim>\<open>NaN\<close>, every comparison with them is false, so neither line 483
  nor the guard skips it.
\<close>

datatype FirstFit = NoFit | Fit BRoom int int | FitNaN int

fun firstFitScan ::
  "int \<Rightarrow> BRoom option list \<Rightarrow> string list list \<Rightarrow> nat \<Rightarrow> NumUsage \<Rightarrow> int
     \<Rightarrow> BRoom option list \<Rightarrow> FirstFit" where
  "firstFitScan minChunk allRooms blocks maxBlockIdx roomUsage remaining [] = NoFit"
| "firstFitScan minChunk allRooms blocks maxBlockIdx roomUsage remaining (room # rest) =
     (if blockLocked blocks maxBlockIdx (roomKey room)
      then firstFitScan minChunk allRooms blocks maxBlockIdx roomUsage remaining rest
      else
        case room of
          None \<Rightarrow> FitNaN (usedOf roomUsage (roomKey room))
        | Some r \<Rightarrow>
            let used = usedOf roomUsage (no r);
                available = capacity r - used
            in
              if available \<le> 0
              then firstFitScan minChunk allRooms blocks maxBlockIdx roomUsage remaining rest
              else
                let toAllocate = min available remaining
                in
                  if guardSkipsFFD minChunk allRooms roomUsage used toAllocate remaining
                  then firstFitScan minChunk allRooms blocks maxBlockIdx roomUsage remaining rest
                  else Fit r used toAllocate)"

lemma firstFitScan_positive:
  "firstFitScan minChunk allRooms blocks maxBlockIdx roomUsage remaining rs = Fit room used t
     \<Longrightarrow> 0 < remaining \<Longrightarrow> 0 < t \<and> t \<le> remaining"
  by (induction rs) (auto simp: Let_def split: if_splits option.splits)

text \<open>
  The loop \<^verbatim>\<open>while (remaining > 0)\<close> of lines 430-520 for one section; the state is
  \<open>(remaining, roomUsage, result, maxBlockIdx)\<close>. In the state the loop ends with,
  \<^verbatim>\<open>remaining\<close> is a number or, after a placement of \<^verbatim>\<open>NaN\<close> students, \<^verbatim>\<open>NaN\<close>, which is
  \<open>None\<close> and ends the loop since \<^verbatim>\<open>NaN > 0\<close> is false.
\<close>

function ffdWhile ::
  "string list list \<Rightarrow> int \<Rightarrow> BRoom option list \<Rightarrow> Section
     \<Rightarrow> int \<times> NumUsage \<times> Pushed list \<times> nat \<Rightarrow> int option \<times> NumUsage \<times> Pushed list \<times> nat" where
  "ffdWhile blocks minChunk allRooms s (remaining, roomUsage, result, maxBlockIdx) =
     (if remaining > 0 then
        (case fst (bestFitScan blocks maxBlockIdx roomUsage remaining allRooms 0 (None, None)) of
           Some (bestRoomIdx, room) \<Rightarrow>
             if bestGuardBreaks minChunk allRooms roomUsage s (usedOf roomUsage (no room)) remaining
             then (Some remaining, roomUsage, result, maxBlockIdx)
             else ffdWhile blocks minChunk allRooms s
                    (0,
                     AList.update (no room) (Some (usedOf roomUsage (no room) + remaining)) roomUsage,
                     result @ [Rec (bestRecord s room (usedOf roomUsage (no room)) remaining)],
                     unlock blocks
                       (AList.update (no room) (Some (usedOf roomUsage (no room) + remaining))
                          roomUsage)
                       maxBlockIdx)
         | None \<Rightarrow>
             (case firstFitScan minChunk allRooms blocks maxBlockIdx roomUsage remaining allRooms of
                NoFit \<Rightarrow> (Some remaining, roomUsage, result, maxBlockIdx)
              | Fit room used toAllocate \<Rightarrow>
                  ffdWhile blocks minChunk allRooms s
                    (remaining - toAllocate,
                     AList.update (no room) (Some (used + toAllocate)) roomUsage,
                     result @ [Rec (greedyRecord s room used toAllocate)],
                     unlock blocks (AList.update (no room) (Some (used + toAllocate)) roomUsage)
                       maxBlockIdx)
              | FitNaN used \<Rightarrow>
                  (None,
                   AList.update ''undefined'' None roomUsage,
                   result @ [NaNRec (branch s) (sect s) (used + 1)],
                   unlock blocks (AList.update ''undefined'' None roomUsage) maxBlockIdx)))
      else (Some remaining, roomUsage, result, maxBlockIdx))"
  by pat_completeness auto
termination
  apply (relation "measure (\<lambda>(blocks, minChunk, allRooms, s, remaining, roomUsage, result,
                              maxBlockIdx). nat remaining)")
  apply (auto dest: firstFitScan_positive)
  done

declare ffdWhile.simps [simp del]

text \<open>
  Lines 428-530: the loop over the sections; the state is \<open>(roomUsage, result, maxBlockIdx)\<close>.
  The test \<^verbatim>\<open>remaining > 0\<close> of line 521 is false for \<^verbatim>\<open>NaN\<close>.
\<close>

fun ffdSections ::
  "string list list \<Rightarrow> int \<Rightarrow> BRoom option list \<Rightarrow> Section list
     \<Rightarrow> NumUsage \<times> Pushed list \<times> nat \<Rightarrow> NumUsage \<times> Pushed list \<times> nat" where
  "ffdSections blocks minChunk allRooms [] st = st"
| "ffdSections blocks minChunk allRooms (s # rest) (roomUsage, result, maxBlockIdx) =
     (case ffdWhile blocks minChunk allRooms s (students s, roomUsage, result, maxBlockIdx) of
        (remaining, roomUsage', result', maxBlockIdx') \<Rightarrow>
          ffdSections blocks minChunk allRooms rest
            (roomUsage',
             (case remaining of
                Some left \<Rightarrow> if left > 0 then result' @ [Rec (errorRecord s left)] else result'
              | None \<Rightarrow> result'),
             maxBlockIdx'))"

text \<open>
  The strategy over any block order, and the function of the source, which runs it on the
  order it has written down.
\<close>

definition bestFitFFD ::
  "string list list \<Rightarrow> RoomBlock list \<Rightarrow> Section list \<Rightarrow> int \<Rightarrow> Pushed list \<times> NumUsage" where
  "bestFitFFD blocks roomBlocks sections minChunk =
     (case ffdSections blocks minChunk (orderedRooms blocks roomBlocks) (sortedSections sections)
             ([], [], 0) of
        (roomUsage, result, maxBlockIdx) \<Rightarrow> (result, roomUsage))"

definition allocateBestFitFFD ::
  "RoomBlock list \<Rightarrow> Section list \<Rightarrow> int \<Rightarrow> Pushed list \<times> NumUsage" where
  "allocateBestFitFFD roomBlocks sections minChunk =
     bestFitFFD orderedRoomBlocks roomBlocks sections minChunk"

section \<open>Statistics of \<^verbatim>\<open>allocateSeats\<close>\<close>

text \<open>
  Lines 549-567. The percentage is the exact quotient; the source prints it with one
  decimal (\<^verbatim>\<open>toFixed(1)\<close>), which is not modelled.
\<close>

record Stats =
  totalStudents :: int
  allocatedStudents :: int
  roomsUsed :: nat
  blocksUsed :: nat
  totalCapacity :: int
  wastedSeats :: int
  efficiency :: rat

definition catalogRooms :: "RoomBlock list \<Rightarrow> Room list" where
  "catalogRooms roomBlocks = concat (map rooms roomBlocks)"

definition usedCapacity :: "RoomBlock list \<Rightarrow> RoomUsage \<Rightarrow> int" where
  "usedCapacity roomBlocks roomUsage =
     sum_list (map (\<lambda>(roomNo', used).
                 case find (\<lambda>r. no r = roomNo') (catalogRooms roomBlocks) of
                   None \<Rightarrow> 0 | Some room \<Rightarrow> capacity room) roomUsage)"

definition seatedRecords :: "Allocation list \<Rightarrow> Allocation list" where
  "seatedRecords result = filter (\<lambda>r. \<not> isError r) result"

definition sumStudents :: "Allocation list \<Rightarrow> int" where
  "sumStudents rs = sum_list (map astudents rs)"

definition calcStats :: "RoomBlock list \<Rightarrow> Section list \<Rightarrow> Allocation list \<times> RoomUsage \<Rightarrow> Stats" where
  "calcStats roomBlocks sections allocationResult =
     (case allocationResult of (result, roomUsage) \<Rightarrow>
        \<lparr>totalStudents = sum_list (map students sections),
         allocatedStudents = sumStudents (seatedRecords result),
         roomsUsed = length (remdups (map roomNo (seatedRecords result))),
         blocksUsed = length (remdups (map blockName
                        (filter (\<lambda>r. \<not> isError r \<and> blockName r \<noteq> None \<and> blockName r \<noteq> Some [])
                           result))),
         totalCapacity = usedCapacity roomBlocks roomUsage,
         wastedSeats = usedCapacity roomBlocks roomUsage - sumStudents (seatedRecords result),
         efficiency =
           (if usedCapacity roomBlocks roomUsage > 0
            then of_int (sumStudents (seatedRecords result))
                   / of_int (usedCapacity roomBlocks roomUsage) * 100
            else 0)\<rparr>)"

section \<open>Vocabulary of the properties\<close>

text \<open>The records of one group identity, and the non-error records of one room.\<close>

definition recordsFor :: "string \<Rightarrow> string \<Rightarrow> Allocation list \<Rightarrow> Allocation list" where
  "recordsFor b sc result = filter (\<lambda>a. abranch a = b \<and> asect a = sc) result"

definition roomRecords :: "string \<Rightarrow> Allocation list \<Rightarrow> Allocation list" where
  "roomRecords k result = filter (\<lambda>a. \<not> isError a \<and> roomNo a = k) result"

text \<open>
  Seat ranges that follow one another: each record starts one seat after the end of the
  record before it (the first one after \<open>prevEnd\<close>), ends at its start plus its
  number of students minus one, and holds at least one seat.
\<close>

fun chained :: "int \<Rightarrow> Allocation list \<Rightarrow> bool" where
  "chained prevEnd [] = True"
| "chained prevEnd (a # as) =
     (case (startSeat a, endSeat a) of
        (Some st, Some en) \<Rightarrow>
          st = prevEnd + 1 \<and> en = st + astudents a - 1 \<and> st \<le> en \<and> chained en as
      | _ \<Rightarrow> False)"

text \<open>Every error record carries the room number \<^verbatim>\<open>"NO SPACE"\<close>.\<close>

definition errorsTagged :: "Allocation list \<Rightarrow> bool" where
  "errorsTagged result = list_all (\<lambda>a. isError a \<longrightarrow> roomNo a = ''NO SPACE'') result"

text \<open>
  The invariant that ties the usage map to the records: the non-error records of every
  room number are chained from seat 1, and the map holds their sum for exactly the room
  numbers that have one.
\<close>

definition usageInv :: "RoomUsage \<Rightarrow> Allocation list \<Rightarrow> bool" where
  "usageInv roomUsage result =
     ((\<forall>k. chained 0 (roomRecords k result)
           \<and> map_of roomUsage k =
               (if roomRecords k result = [] then None
                else Some (sumStudents (roomRecords k result))))
      \<and> errorsTagged result)"

text \<open>
  No room of the working list is filled beyond its capacity, and rooms of one number
  have one capacity.
\<close>

definition capInv :: "BRoom list \<Rightarrow> RoomUsage \<Rightarrow> bool" where
  "capInv allRooms roomUsage = (\<forall>r\<in>set allRooms. usageOf roomUsage (no r) \<le> max 0 (capacity r))"

definition sameCap :: "BRoom list \<Rightarrow> bool" where
  "sameCap allRooms =
     (\<forall>r\<in>set allRooms. \<forall>r'\<in>set allRooms. no r = no r' \<longrightarrow> capacity r = capacity r')"

text \<open>The students of the groups of one identity in a list of groups.\<close>

definition demand :: "string \<Rightarrow> string \<Rightarrow> Section list \<Rightarrow> int" where
  "demand b sc sections =
     sum_list (map students (filter (\<lambda>s. branch s = b \<and> sect s = sc) sections))"

text \<open>Every group of the working list has students left.\<close>

definition secPos :: "Section list \<Rightarrow> bool" where
  "secPos sectionLeft = list_all (\<lambda>s. 0 < students s) sectionLeft"

text \<open>The room numbers of the catalog are unique, as the data model has them.\<close>

definition uniqueRoomIds :: "RoomBlock list \<Rightarrow> bool" where
  "uniqueRoomIds roomBlocks = distinct (map no (catalogRooms roomBlocks))"

text \<open>The invariant of the loop that fills one room.\<close>

definition fillInv :: "BRoom \<Rightarrow> int \<times> Section list \<times> Allocation list \<Rightarrow> bool" where
  "fillInv room st =
     (case st of (seatsLeft, sectionLeft, allocs) \<Rightarrow>
        secPos sectionLeft \<and> (0 \<le> seatsLeft \<or> allocs = [])
        \<and> chained 0 allocs \<and> sumStudents allocs = capacity room - seatsLeft
        \<and> roomRecords (no room) allocs = allocs)"

text \<open>Students seated or left over, for one identity.\<close>

definition total :: "string \<Rightarrow> string \<Rightarrow> Section list \<Rightarrow> Allocation list \<Rightarrow> int" where
  "total b sc sectionLeft result = sumStudents (recordsFor b sc result) + demand b sc sectionLeft"

text \<open>The rooms still to come in the loop of Greedy Lookahead have no record yet.\<close>

definition freshRooms :: "BRoom list \<Rightarrow> Allocation list \<Rightarrow> bool" where
  "freshRooms rs result = list_all (\<lambda>r. roomRecords (no r) result = []) rs"

text \<open>Every non-error record names a room of the working list.\<close>

definition refInv :: "BRoom list \<Rightarrow> Allocation list \<Rightarrow> bool" where
  "refInv allRooms result = (set (map roomNo (seatedRecords result)) \<subseteq> set (map no allRooms))"

text \<open>
  For Best-Fit/FFD: the records that name a room, in their order; the usage entries that
  hold a number; the room objects that have a number and a capacity.
\<close>

definition properRecords :: "Pushed list \<Rightarrow> Allocation list" where
  "properRecords result = concat (map (\<lambda>p. case p of Rec a \<Rightarrow> [a] | NaNRec b sc st \<Rightarrow> []) result)"

definition numUsage :: "NumUsage \<Rightarrow> RoomUsage" where
  "numUsage roomUsage =
     concat (map (\<lambda>(k, v). case v of Some n \<Rightarrow> [(k, n)] | None \<Rightarrow> []) roomUsage)"

definition foundRooms :: "BRoom option list \<Rightarrow> BRoom list" where
  "foundRooms allRooms = concat (map (\<lambda>room. case room of Some r \<Rightarrow> [r] | None \<Rightarrow> []) allRooms)"

text \<open>The entries of the key \<^verbatim>\<open>"undefined"\<close> are the entries that hold \<^verbatim>\<open>NaN\<close>.\<close>

definition nanKeyed :: "NumUsage \<Rightarrow> bool" where
  "nanKeyed roomUsage = list_all (\<lambda>(k, v). (v = None) = (k = ''undefined'')) roomUsage"

text \<open>The invariant of the loops of Best-Fit/FFD, on usage map and records.\<close>

definition ffdInv :: "BRoom option list \<Rightarrow> NumUsage \<Rightarrow> Pushed list \<Rightarrow> bool" where
  "ffdInv allRooms roomUsage result =
     (nanKeyed roomUsage
      \<and> usageInv (numUsage roomUsage) (properRecords result)
      \<and> capInv (foundRooms allRooms) (numUsage roomUsage)
      \<and> refInv (foundRooms allRooms) (properRecords result))"

text \<open>No record of \<^verbatim>\<open>NaN\<close> students, and no \<^verbatim>\<open>NaN\<close> in the usage map.\<close>

definition allRec :: "Pushed list \<Rightarrow> bool" where
  "allRec result = list_all (\<lambda>p. case p of Rec a \<Rightarrow> True | NaNRec b sc st \<Rightarrow> False) result"

definition noNaN :: "NumUsage \<Rightarrow> bool" where
  "noNaN roomUsage = list_all (\<lambda>(k, v). v \<noteq> None) roomUsage"

text \<open>Every room number the strategy is to use is in the catalog.\<close>

definition catalogCovers :: "string list list \<Rightarrow> RoomBlock list \<Rightarrow> bool" where
  "catalogCovers blocks roomBlocks =
     list_all (\<lambda>k. k \<in> set (map no (catalogRooms roomBlocks))) (concat blocks)"

text \<open>
  The properties of a finished run: conservation by identity, capacity safety over
  the rooms of the catalog, contiguous seat ranges for every room number, the usage map
  in step with the records, and a room that the run has not touched.
\<close>

definition conserved :: "Section list \<Rightarrow> Allocation list \<Rightarrow> bool" where
  "conserved sections result =
     (\<forall>b sc. sumStudents (recordsFor b sc result) = demand b sc (filter validSection sections))"

definition capacitySafe :: "RoomBlock list \<Rightarrow> Allocation list \<Rightarrow> bool" where
  "capacitySafe roomBlocks result =
     list_all (\<lambda>r. sumStudents (roomRecords (no r) result) \<le> max 0 (capacity r))
       (catalogRooms roomBlocks)"

definition contiguous :: "Allocation list \<Rightarrow> bool" where
  "contiguous result = (\<forall>k. chained 0 (roomRecords k result))"

definition usageConsistent :: "Allocation list \<times> RoomUsage \<Rightarrow> bool" where
  "usageConsistent allocationResult =
     (case allocationResult of (result, roomUsage) \<Rightarrow>
        \<forall>k. map_of roomUsage k =
               (if roomRecords k result = [] then None
                else Some (sumStudents (roomRecords k result)))
            \<and> (roomRecords k result = [] \<or> 0 < sumStudents (roomRecords k result)))"

definition unusedRoom :: "string \<Rightarrow> Allocation list \<times> RoomUsage \<Rightarrow> bool" where
  "unusedRoom k allocationResult =
     (case allocationResult of (result, roomUsage) \<Rightarrow>
        roomRecords k result = [] \<and> map_of roomUsage k = None
        \<and> (k = ''NO SPACE'' \<or> k \<notin> set (map roomNo result)))"

text \<open>
  A room that a run of Best-Fit/FFD has not touched. The records that name no room are
  not records of it, and the key \<^verbatim>\<open>"undefined"\<close> is the one under which the strategy
  books the room objects without a number.
\<close>

definition unusedRoomFFD :: "string \<Rightarrow> Pushed list \<times> NumUsage \<Rightarrow> bool" where
  "unusedRoomFFD k allocationResult =
     (case allocationResult of (result, roomUsage) \<Rightarrow>
        roomRecords k (properRecords result) = []
        \<and> (k = ''undefined'' \<or> map_of roomUsage k = None)
        \<and> (k = ''NO SPACE'' \<or> k \<notin> set (map roomNo (properRecords result))))"

text \<open>
  A run of Best-Fit/FFD without a record of \<^verbatim>\<open>NaN\<close> students, as a run of the other
  strategies.
\<close>

definition plainRun :: "Allocation list \<times> RoomUsage \<Rightarrow> Pushed list \<times> NumUsage" where
  "plainRun allocationResult =
     (case allocationResult of (result, roomUsage) \<Rightarrow>
        (map Rec result, map (\<lambda>(k, n). (k, Some n)) roomUsage))"

text \<open>The block cursor at the moment the loop reaches the group of index \<open>i\<close>.\<close>

definition cursorBefore ::
  "string list list \<Rightarrow> int \<Rightarrow> BRoom option list \<Rightarrow> Section list \<Rightarrow> nat \<Rightarrow> nat" where
  "cursorBefore blocks minChunk allRooms sectionLeft i =
     (case ffdSections blocks minChunk allRooms (take i sectionLeft) ([], [], 0) of
        (roomUsage, result, maxBlockIdx) \<Rightarrow> maxBlockIdx)"

section \<open>Inputs of the examples\<close>

text \<open>The worked scenario: rooms A(50), B(30), C(20), groups X = 40 and Y = 60.\<close>

definition scenarioBlocks :: "RoomBlock list" where
  "scenarioBlocks =
     [\<lparr>name = ''Main Block'',
       rooms = [\<lparr>no = ''A'', capacity = 50, rows = []\<rparr>,
                \<lparr>no = ''B'', capacity = 30, rows = []\<rparr>,
                \<lparr>no = ''C'', capacity = 20, rows = []\<rparr>]\<rparr>]"

definition scenarioSections :: "Section list" where
  "scenarioSections =
     [\<lparr>sid = 1, branch = ''X'', sect = ''1'', students = 40\<rparr>,
      \<lparr>sid = 2, branch = ''Y'', sect = ''1'', students = 60\<rparr>]"

definition seatRecord ::
  "string \<Rightarrow> string \<Rightarrow> string \<Rightarrow> int \<Rightarrow> int \<Rightarrow> int \<Rightarrow> bool option \<Rightarrow> string \<Rightarrow> Allocation" where
  "seatRecord b sc k n st en p bn =
     \<lparr>abranch = b, asect = sc, roomNo = k, astudents = n, startSeat = Some st,
      endSeat = Some en, partial = p, emergency = None, error = None, blockName = Some bn\<rparr>"

text \<open>
  A catalog that has every room of the written-down order, block by block, with 40
  seats each, except that room MPC-02 has none.
\<close>

definition listedCatalog :: "RoomBlock list" where
  "listedCatalog =
     map (\<lambda>block.
            \<lparr>name = ''Block of '' @ hd block,
             rooms = map (\<lambda>k. \<lparr>no = k, capacity = (if k = ''MPC-02'' then 0 else 40), rows = []\<rparr>)
                       block\<rparr>)
         orderedRoomBlocks"

text \<open>Two valid groups of the same identity.\<close>

definition twinSections :: "Section list" where
  "twinSections =
     [\<lparr>sid = 1, branch = ''CSE'', sect = ''1'', students = 5\<rparr>,
      \<lparr>sid = 2, branch = ''CSE'', sect = ''1'', students = 7\<rparr>]"

text \<open>
  Two rooms of the written-down order, and two groups that share the first of them.
\<close>

definition twoRooms :: "RoomBlock list" where
  "twoRooms =
     [\<lparr>name = ''APJ Block'',
       rooms = [\<lparr>no = ''APJ-1'', capacity = 40, rows = []\<rparr>,
                \<lparr>no = ''APJ-2'', capacity = 40, rows = []\<rparr>]\<rparr>]"

definition chainSections :: "Section list" where
  "chainSections =
     [\<lparr>sid = 1, branch = ''X'', sect = ''1'', students = 30\<rparr>,
      \<lparr>sid = 2, branch = ''Y'', sect = ''1'', students = 10\<rparr>]"

text \<open>
  The same two rooms with the first one closed (no seats), and a group that does not fit
  the other, so that every strategy comes to the closed room with students left.
\<close>

definition closedRoom :: Room where
  "closedRoom = \<lparr>no = ''APJ-1'', capacity = 0, rows = []\<rparr>"

definition closedCatalog :: "RoomBlock list" where
  "closedCatalog =
     [\<lparr>name = ''APJ Block'',
       rooms = [closedRoom, \<lparr>no = ''APJ-2'', capacity = 40, rows = []\<rparr>]\<rparr>]"

definition crowdSections :: "Section list" where
  "crowdSections = [\<lparr>sid = 1, branch = ''X'', sect = ''1'', students = 100\<rparr>]"

text \<open>A catalog with a closed room whose number is the marker of the error records.\<close>

definition markerRoom :: Room where
  "markerRoom = \<lparr>no = ''NO SPACE'', capacity = 0, rows = []\<rparr>"

definition markerCatalog :: "RoomBlock list" where
  "markerCatalog =
     [\<lparr>name = ''Main Block'',
       rooms = [\<lparr>no = ''A'', capacity = 50, rows = []\<rparr>, markerRoom]\<rparr>]"

text \<open>
  A catalog whose only room is closed and has the number \<^verbatim>\<open>"undefined"\<close>, the key under
  which Best-Fit/FFD books a room object without a number.
\<close>

definition undefinedRoom :: Room where
  "undefinedRoom = \<lparr>no = ''undefined'', capacity = 0, rows = []\<rparr>"

definition undefinedCatalog :: "RoomBlock list" where
  "undefinedCatalog = [\<lparr>name = ''Main Block'', rooms = [undefinedRoom]\<rparr>]"

text \<open>Small catalogs and group lists on which the guards are run.\<close>

definition cornerBlocks :: "RoomBlock list" where
  "cornerBlocks =
     [\<lparr>name = ''Main Block'',
       rooms = [\<lparr>no = ''A'', capacity = 20, rows = []\<rparr>,
                \<lparr>no = ''B'', capacity = 3, rows = []\<rparr>,
                \<lparr>no = ''C'', capacity = 50, rows = []\<rparr>]\<rparr>]"

definition cornerSections :: "Section list" where
  "cornerSections =
     [\<lparr>sid = 1, branch = ''X'', sect = ''1'', students = 50\<rparr>,
      \<lparr>sid = 2, branch = ''Y'', sect = ''1'', students = 5\<rparr>]"

definition hallBlocks :: "RoomBlock list" where
  "hallBlocks = [\<lparr>name = ''Main Block'', rooms = [\<lparr>no = ''A'', capacity = 50, rows = []\<rparr>]\<rparr>]"

definition hallSections :: "Section list" where
  "hallSections =
     [\<lparr>sid = 1, branch = ''X'', sect = ''1'', students = 45\<rparr>,
      \<lparr>sid = 2, branch = ''Y'', sect = ''1'', students = 20\<rparr>]"

definition pairBlocks :: "int \<Rightarrow> RoomBlock list" where
  "pairBlocks n =
     [\<lparr>name = ''Main Block'',
       rooms = [\<lparr>no = ''A'', capacity = 50, rows = []\<rparr>,
                \<lparr>no = ''B'', capacity = n, rows = []\<rparr>]\<rparr>]"

text \<open>Two rooms in two blocks, for the block cursor.\<close>

definition frontBack :: "BRoom option list" where
  "frontBack =
     [Some \<lparr>no = ''A'', capacity = 10, rows = [], rblockName = ''Front''\<rparr>,
      Some \<lparr>no = ''B'', capacity = 10, rows = [], rblockName = ''Back''\<rparr>]"

lemmas eval_defs =
  allocateSimpleGreedy_def allocateGreedyMinChunk_def allocateGreedyLookahead_def
  sortedRooms_def sortedSections_def flattenRooms_def withBlock_def validSection_def
  guardSkips_def usageOf_def anyRoomHasStudents_def greedyRecord_def errorRecord_def
  seatRecord_def recordsFor_def roomRecords_def isError_def sumStudents_def
  seatedRecords_def calcStats_def usedCapacity_def catalogRooms_def Let_def

section \<open>Invariants of the loops\<close>

lemma sumStudents_append [simp]: "sumStudents (xs @ ys) = sumStudents xs + sumStudents ys"
  by (simp add: sumStudents_def)

lemma sumStudents_simps [simp]: "sumStudents [] = 0" "sumStudents (a # as) = astudents a + sumStudents as"
  by (simp_all add: sumStudents_def)

lemma chained_Cons:
  "chained k (a # as) =
     (startSeat a = Some (k + 1) \<and> endSeat a = Some (k + astudents a) \<and> 0 < astudents a
      \<and> chained (k + astudents a) as)"
proof (cases "startSeat a")
  case None
  then show ?thesis by simp
next
  case st: (Some st)
  show ?thesis
  proof (cases "endSeat a")
    case None
    with st show ?thesis by simp
  next
    case en: (Some en)
    show ?thesis
    proof (cases "en = k + astudents a")
      case True
      with st en show ?thesis by auto
    next
      case False
      with st en show ?thesis by auto
    qed
  qed
qed

lemma chained_append:
  "chained k (xs @ ys) = (chained k xs \<and> chained (k + sumStudents xs) ys)"
proof (induction xs arbitrary: k)
  case Nil
  then show ?case by simp
next
  case (Cons a xs)
  have "k + astudents a + sumStudents xs = k + sumStudents (a # xs)" by simp
  with Cons.IH [of "k + astudents a"] show ?case
    by (auto simp del: chained.simps(2) simp add: chained_Cons)
qed

lemma chained_sum_nonneg: "chained k xs \<Longrightarrow> 0 \<le> sumStudents xs"
proof (induction xs arbitrary: k)
  case Nil
  then show ?case by simp
next
  case (Cons a xs)
  then have "0 < astudents a" "chained (k + astudents a) xs"
    by (simp_all only: chained_Cons)
  with Cons.IH show ?case by fastforce
qed

lemma chained_sum_pos: "chained k xs \<Longrightarrow> xs \<noteq> [] \<Longrightarrow> 0 < sumStudents xs"
proof (cases xs)
  case Nil
  assume "xs \<noteq> []"
  with Nil show ?thesis by simp
next
  case (Cons a as)
  assume "chained k xs"
  with Cons have "0 < astudents a" "chained (k + astudents a) as"
    by (simp_all only: chained_Cons)
  with Cons chained_sum_nonneg [of "k + astudents a" as] show ?thesis by simp
qed

lemma roomRecords_snoc:
  "roomRecords k (res @ [a]) =
     roomRecords k res @ (if \<not> isError a \<and> roomNo a = k then [a] else [])"
  by (simp add: roomRecords_def)

lemma roomRecords_append: "roomRecords k (xs @ ys) = roomRecords k xs @ roomRecords k ys"
  by (simp add: roomRecords_def)

lemma usageInv_usageOf: "usageInv u res \<Longrightarrow> usageOf u k = sumStudents (roomRecords k res)"
  by (simp add: usageInv_def usageOf_def)

lemma errorsTagged_simps [simp]:
  "errorsTagged [] = True"
  "errorsTagged (xs @ ys) = (errorsTagged xs \<and> errorsTagged ys)"
  "errorsTagged [a] = (isError a \<longrightarrow> roomNo a = ''NO SPACE'')"
  by (simp_all add: errorsTagged_def)

lemma usageInv_tagged: "usageInv u res \<Longrightarrow> errorsTagged res"
  by (simp add: usageInv_def)

lemma usageInv_empty: "usageInv [] []"
  by (simp add: usageInv_def roomRecords_def)

lemma usageInv_error:
  "isError a \<Longrightarrow> roomNo a = ''NO SPACE'' \<Longrightarrow> usageInv u res \<Longrightarrow> usageInv u (res @ [a])"
  by (simp add: usageInv_def roomRecords_snoc)

lemma usageInv_place:
  assumes inv: "usageInv u res"
    and a: "\<not> isError a" "roomNo a = k"
      "startSeat a = Some (usageOf u k + 1)" "endSeat a = Some (usageOf u k + astudents a)"
      "0 < astudents a"
  shows "usageInv (AList.update k (usageOf u k + astudents a) u) (res @ [a])"
proof -
  have used: "usageOf u k = sumStudents (roomRecords k res)"
    using inv by (rule usageInv_usageOf)
  have "chained 0 (roomRecords k' (res @ [a]))
        \<and> map_of (AList.update k (usageOf u k + astudents a) u) k' =
            (if roomRecords k' (res @ [a]) = [] then None
             else Some (sumStudents (roomRecords k' (res @ [a]))))" for k'
  proof (cases "k' = k")
    case True
    have "chained 0 (roomRecords k res)" using inv by (simp add: usageInv_def)
    with a used True show ?thesis
      by (simp add: roomRecords_snoc chained_append update_conv' chained_Cons del: chained.simps(2))
  next
    case False
    with inv a show ?thesis
      by (simp add: roomRecords_snoc update_conv' usageInv_def)
  qed
  moreover have "errorsTagged (res @ [a])"
    using usageInv_tagged [OF inv] a(1) by simp
  ultimately show ?thesis unfolding usageInv_def by blast
qed

lemma sameCapD:
  "sameCap allRooms \<Longrightarrow> r \<in> set allRooms \<Longrightarrow> r' \<in> set allRooms \<Longrightarrow> no r = no r'
     \<Longrightarrow> capacity r = capacity r'"
  unfolding sameCap_def by blast

lemma capInvD: "capInv allRooms u \<Longrightarrow> r \<in> set allRooms \<Longrightarrow> usageOf u (no r) \<le> max 0 (capacity r)"
  unfolding capInv_def by blast

lemma usageOf_update:
  "usageOf (AList.update k v u) k' = (if k' = k then v else usageOf u k')"
  by (simp add: usageOf_def update_conv')

lemma capInv_place:
  assumes cap: "capInv allRooms u" and same: "sameCap allRooms"
    and room: "room \<in> set allRooms" and v: "v \<le> capacity room"
  shows "capInv allRooms (AList.update (no room) v u)"
  unfolding capInv_def
proof
  fix r assume r: "r \<in> set allRooms"
  show "usageOf (AList.update (no room) v u) (no r) \<le> max 0 (capacity r)"
  proof (cases "no r = no room")
    case True
    from sameCapD [OF same r room True] have "capacity r = capacity room" .
    with True v show ?thesis by (simp add: usageOf_update)
  next
    case False
    with capInvD [OF cap r] show ?thesis by (simp add: usageOf_update)
  qed
qed

lemma greedyRecord_sel [simp]:
  "\<not> isError (greedyRecord s room used t)"
  "roomNo (greedyRecord s room used t) = no room"
  "astudents (greedyRecord s room used t) = t"
  "startSeat (greedyRecord s room used t) = Some (used + 1)"
  "endSeat (greedyRecord s room used t) = Some (used + t)"
  "abranch (greedyRecord s room used t) = branch s"
  "asect (greedyRecord s room used t) = sect s"
  by (simp_all add: greedyRecord_def isError_def)

lemma errorRecord_sel [simp]:
  "isError (errorRecord s n)"
  "astudents (errorRecord s n) = n"
  "abranch (errorRecord s n) = branch s"
  "asect (errorRecord s n) = sect s"
  "roomNo (errorRecord s n) = ''NO SPACE''"
  by (simp_all add: errorRecord_def isError_def)

subsection \<open>Simple Greedy: the scan of the rooms\<close>

lemma scanRooms_inv:
  assumes "scanRooms minChunk allRooms s rs (remaining, u, res) = (remaining', u', res')"
    and "0 \<le> remaining" "usageInv u res" "capInv allRooms u" "sameCap allRooms"
    and "set rs \<subseteq> set allRooms"
  shows "0 \<le> remaining' \<and> usageInv u' res' \<and> capInv allRooms u'"
  using assms
proof (induction rs arbitrary: remaining u res)
  case Nil
  then show ?case by simp
next
  case (Cons room rest)
  let ?used = "usageOf u (no room)"
  let ?avail = "capacity room - ?used"
  let ?t = "min ?avail remaining"
  show ?case
  proof (cases "remaining = 0 \<or> ?avail \<le> 0 \<or> guardSkips minChunk allRooms u ?used ?t remaining")
    case True
    show ?thesis
    proof (cases "remaining = 0")
      case True
      with Cons.prems show ?thesis by simp
    next
      case False
      with True Cons.prems
      have "scanRooms minChunk allRooms s rest (remaining, u, res) = (remaining', u', res')"
        by (auto simp: Let_def split: if_splits)
      from Cons.IH [OF this] Cons.prems show ?thesis by simp
    qed
  next
    case False
    then have pos: "0 < ?t" using Cons.prems(2) by simp
    from False Cons.prems(1)
    have run: "scanRooms minChunk allRooms s rest
                 (remaining - ?t, AList.update (no room) (?used + ?t) u,
                  res @ [greedyRecord s room ?used ?t]) = (remaining', u', res')"
      by (simp add: Let_def)
    have inv: "usageInv (AList.update (no room) (?used + ?t) u) (res @ [greedyRecord s room ?used ?t])"
      using usageInv_place [OF Cons.prems(3), of "greedyRecord s room ?used ?t" "no room"] pos
      by simp
    have cap: "capInv allRooms (AList.update (no room) (?used + ?t) u)"
      using Cons.prems by (intro capInv_place) auto
    from Cons.IH [OF run _ inv cap] Cons.prems show ?thesis by simp
  qed
qed

lemma recordsFor_snoc:
  "recordsFor b sc (res @ [a]) = recordsFor b sc res @ (if abranch a = b \<and> asect a = sc then [a] else [])"
  by (simp add: recordsFor_def)

lemma scanRooms_conserve:
  assumes "scanRooms minChunk allRooms s rs (remaining, u, res) = (remaining', u', res')"
  shows "sumStudents (recordsFor b sc res') + (if branch s = b \<and> sect s = sc then remaining' else 0)
       = sumStudents (recordsFor b sc res) + (if branch s = b \<and> sect s = sc then remaining else 0)"
  using assms
proof (induction rs arbitrary: remaining u res)
  case Nil
  then show ?case by simp
next
  case (Cons room rest)
  let ?used = "usageOf u (no room)"
  let ?avail = "capacity room - ?used"
  let ?t = "min ?avail remaining"
  show ?case
  proof (cases "remaining = 0 \<or> ?avail \<le> 0 \<or> guardSkips minChunk allRooms u ?used ?t remaining")
    case True
    show ?thesis
    proof (cases "remaining = 0")
      case True
      with Cons.prems show ?thesis by simp
    next
      case False
      with True Cons.prems
      have "scanRooms minChunk allRooms s rest (remaining, u, res) = (remaining', u', res')"
        by (auto simp: Let_def split: if_splits)
      from Cons.IH [OF this] show ?thesis .
    qed
  next
    case False
    with Cons.prems(1)
    have run: "scanRooms minChunk allRooms s rest
                 (remaining - ?t, AList.update (no room) (?used + ?t) u,
                  res @ [greedyRecord s room ?used ?t]) = (remaining', u', res')"
      by (simp add: Let_def)
    from Cons.IH [OF run] show ?thesis by (simp add: recordsFor_snoc split: if_splits)
  qed
qed

subsection \<open>Simple Greedy: the loop over the sections\<close>

lemma secPos_simps [simp]:
  "secPos [] = True" "secPos (s # rest) = (0 < students s \<and> secPos rest)"
  by (simp_all add: secPos_def)

lemma secPosD: "secPos sl \<Longrightarrow> s \<in> set sl \<Longrightarrow> 0 < students s"
  by (simp add: secPos_def list_all_iff)

lemma secPosI: "(\<And>s. s \<in> set sl \<Longrightarrow> 0 < students s) \<Longrightarrow> secPos sl"
  by (simp add: secPos_def list_all_iff)

lemma secPos_sortedSections: "secPos (sortedSections sections)"
  by (rule secPosI) (simp add: sortedSections_def validSection_def)

lemma sum_list_insort_key:
  "sum_list (map g (insort_key f x xs)) = (g x :: int) + sum_list (map g xs)"
  by (induction xs) simp_all

lemma sum_list_sort_key: "sum_list (map g (sort_key f xs)) = (sum_list (map g xs) :: int)"
  by (induction xs) (simp_all add: sum_list_insort_key)

lemma demand_sort_key: "demand b sc (sort_key f xs) = demand b sc xs"
  by (simp add: demand_def filter_sort sum_list_sort_key)

lemma demand_simps [simp]:
  "demand b sc [] = 0"
  "demand b sc (s # rest) = (if branch s = b \<and> sect s = sc then students s else 0) + demand b sc rest"
  by (simp_all add: demand_def)

lemma demand_append: "demand b sc (xs @ ys) = demand b sc xs + demand b sc ys"
  by (simp add: demand_def)

lemma scanRooms_nonneg:
  "scanRooms minChunk allRooms s rs (remaining, u, res) = (remaining', u', res')
     \<Longrightarrow> 0 \<le> remaining \<Longrightarrow> 0 \<le> remaining'"
proof (induction rs arbitrary: remaining u res)
  case Nil
  then show ?case by simp
next
  case (Cons room rest)
  let ?used = "usageOf u (no room)"
  let ?avail = "capacity room - ?used"
  let ?t = "min ?avail remaining"
  show ?case
  proof (cases "remaining = 0")
    case True
    with Cons.prems show ?thesis by simp
  next
    case False
    show ?thesis
    proof (cases "?avail \<le> 0 \<or> guardSkips minChunk allRooms u ?used ?t remaining")
      case True
      with False Cons.prems(1)
      have "scanRooms minChunk allRooms s rest (remaining, u, res) = (remaining', u', res')"
        by (auto simp: Let_def split: if_splits)
      from Cons.IH [OF this Cons.prems(2)] show ?thesis .
    next
      case skip: False
      with False Cons.prems(1)
      have "scanRooms minChunk allRooms s rest
              (remaining - ?t, AList.update (no room) (?used + ?t) u,
               res @ [greedyRecord s room ?used ?t]) = (remaining', u', res')"
        by (simp add: Let_def)
      from Cons.IH [OF this] show ?thesis by simp
    qed
  qed
qed

lemma greedySections_inv:
  assumes "greedySections minChunk allRooms secs (u, res) = (u', res')"
    and "secPos secs" "usageInv u res" "capInv allRooms u" "sameCap allRooms"
  shows "usageInv u' res' \<and> capInv allRooms u'"
  using assms
proof (induction secs arbitrary: u res)
  case Nil
  then show ?case by simp
next
  case (Cons s rest)
  obtain r1 u1 res1 where scan:
    "scanRooms minChunk allRooms s allRooms (students s, u, res) = (r1, u1, res1)"
    by (cases "scanRooms minChunk allRooms s allRooms (students s, u, res)") auto
  from Cons.prems(2) have pos: "0 \<le> students s" and rest: "secPos rest" by simp_all
  from scanRooms_inv [OF scan pos Cons.prems(3) Cons.prems(4) Cons.prems(5)]
  have inv1: "usageInv u1 res1" and cap1: "capInv allRooms u1" by simp_all
  let ?res2 = "if r1 > 0 then res1 @ [errorRecord s r1] else res1"
  have inv2: "usageInv u1 ?res2" using inv1 by (simp add: usageInv_error)
  from Cons.prems(1) scan
  have "greedySections minChunk allRooms rest (u1, ?res2) = (u', res')" by simp
  from Cons.IH [OF this rest inv2 cap1 Cons.prems(5)] show ?case .
qed

lemma greedySections_conserve:
  assumes "greedySections minChunk allRooms secs (u, res) = (u', res')"
    and "secPos secs"
  shows "sumStudents (recordsFor b sc res') = sumStudents (recordsFor b sc res) + demand b sc secs"
  using assms
proof (induction secs arbitrary: u res)
  case Nil
  then show ?case by simp
next
  case (Cons s rest)
  obtain r1 u1 res1 where scan:
    "scanRooms minChunk allRooms s allRooms (students s, u, res) = (r1, u1, res1)"
    by (cases "scanRooms minChunk allRooms s allRooms (students s, u, res)") auto
  from Cons.prems(2) have pos: "0 \<le> students s" and rest: "secPos rest" by simp_all
  from scanRooms_nonneg [OF scan pos] have r1: "0 \<le> r1" .
  let ?res2 = "if r1 > 0 then res1 @ [errorRecord s r1] else res1"
  from Cons.prems(1) scan
  have "greedySections minChunk allRooms rest (u1, ?res2) = (u', res')" by simp
  from Cons.IH [OF this rest]
  have "sumStudents (recordsFor b sc res') = sumStudents (recordsFor b sc ?res2) + demand b sc rest" .
  moreover have "sumStudents (recordsFor b sc ?res2)
       = sumStudents (recordsFor b sc res1) + (if branch s = b \<and> sect s = sc then r1 else 0)"
    using r1 by (simp add: recordsFor_snoc)
  moreover note scanRooms_conserve [OF scan, of b sc]
  ultimately show ?case by simp
qed

text \<open>The working list of rooms and the catalog.\<close>

lemma map_no_flattenRooms: "map no (flattenRooms roomBlocks) = map no (catalogRooms roomBlocks)"
  by (induction roomBlocks) (simp_all add: flattenRooms_def catalogRooms_def withBlock_def comp_def)

lemma distinct_ids_sameCap:
  assumes "distinct (map no rs)"
  shows "sameCap rs"
  unfolding sameCap_def
proof (intro ballI impI)
  fix r r' assume "r \<in> set rs" "r' \<in> set rs" "no r = no r'"
  with assms have "r = r'" by (meson distinct_map inj_onD)
  then show "capacity r = capacity r'" by simp
qed

lemma sameCap_sortedRooms: "uniqueRoomIds roomBlocks \<Longrightarrow> sameCap (sortedRooms roomBlocks)"
proof -
  assume "uniqueRoomIds roomBlocks"
  then have "distinct (map no (flattenRooms roomBlocks))"
    by (simp add: uniqueRoomIds_def map_no_flattenRooms)
  then have "sameCap (flattenRooms roomBlocks)" by (rule distinct_ids_sameCap)
  then show ?thesis unfolding sameCap_def sortedRooms_def by (simp only: set_sort)
qed

lemma catalog_in_sortedRooms:
  assumes "r \<in> set (catalogRooms roomBlocks)"
  shows "\<exists>r'\<in>set (sortedRooms roomBlocks). no r' = no r \<and> capacity r' = capacity r"
proof -
  from assms obtain blk where "blk \<in> set roomBlocks" "r \<in> set (rooms blk)"
    by (auto simp: catalogRooms_def)
  then have "withBlock (name blk) r \<in> set (sortedRooms roomBlocks)"
    by (auto simp: sortedRooms_def flattenRooms_def)
  moreover have "no (withBlock (name blk) r) = no r" "capacity (withBlock (name blk) r) = capacity r"
    by (simp_all add: withBlock_def)
  ultimately show ?thesis by blast
qed

lemma capInv_empty: "capInv allRooms []"
  by (simp add: capInv_def usageOf_def)

lemma greedy_run:
  assumes "greedySections minChunk (sortedRooms roomBlocks) (sortedSections sections) ([], []) = (u, res)"
  shows "sumStudents (recordsFor b sc res) = demand b sc (filter validSection sections)"
    and "uniqueRoomIds roomBlocks \<Longrightarrow> usageInv u res \<and> capInv (sortedRooms roomBlocks) u"
proof -
  from greedySections_conserve [OF assms secPos_sortedSections, of b sc]
  show "sumStudents (recordsFor b sc res) = demand b sc (filter validSection sections)"
    by (simp add: recordsFor_def sortedSections_def demand_sort_key)
next
  assume "uniqueRoomIds roomBlocks"
  then have "sameCap (sortedRooms roomBlocks)" by (rule sameCap_sortedRooms)
  from greedySections_inv [OF assms secPos_sortedSections usageInv_empty capInv_empty this]
  show "usageInv u res \<and> capInv (sortedRooms roomBlocks) u" .
qed

subsection \<open>Greedy Lookahead: filling one room\<close>

lemma bestScan_fits:
  "bestScan seatsLeft xs i (bi, bc) = (Some j, c) \<Longrightarrow>
     (bi = Some j \<and> c = bc)
     \<or> (i \<le> j \<and> j < i + length xs \<and> students (xs ! (j - i)) = c \<and> c \<le> seatsLeft \<and> bc < c)"
proof (induction xs arbitrary: i bi bc)
  case Nil
  then show ?case by simp
next
  case (Cons s rest)
  show ?case
  proof (cases "students s \<le> seatsLeft \<and> students s > bc")
    case True
    with Cons.prems have "bestScan seatsLeft rest (Suc i) (Some i, students s) = (Some j, c)"
      by simp
    from Cons.IH [OF this] True show ?thesis
      by (auto simp: nth_Cons' Suc_diff_le)
  next
    case False
    with Cons.prems have "bestScan seatsLeft rest (Suc i) (bi, bc) = (Some j, c)"
      by auto
    from Cons.IH [OF this] show ?thesis
      by (auto simp: nth_Cons' Suc_diff_le)
  qed
qed

lemma bestScan_whole:
  assumes "fst (bestScan seatsLeft xs 0 (None, 0)) = Some j"
  shows "j < length xs \<and> 0 < students (xs ! j) \<and> students (xs ! j) \<le> seatsLeft"
proof -
  obtain c where "bestScan seatsLeft xs 0 (None, 0) = (Some j, c)"
    using assms by (cases "bestScan seatsLeft xs 0 (None, 0)") auto
  from bestScan_fits [OF this] show ?thesis by auto
qed

lemma set_removeAt: "set (removeAt i xs) \<subseteq> set xs"
  unfolding removeAt_def by (auto dest: in_set_takeD in_set_dropD)

lemma secPos_removeAt: "secPos xs \<Longrightarrow> secPos (removeAt i xs)"
  using set_removeAt [of i xs] by (auto intro!: secPosI dest: secPosD)

lemma demand_removeAt:
  assumes "i < length xs"
  shows "demand b sc (removeAt i xs)
           + (if branch (xs ! i) = b \<and> sect (xs ! i) = sc then students (xs ! i) else 0)
         = demand b sc xs"
proof -
  have "xs = take i xs @ (xs ! i) # drop (Suc i) xs"
    using assms by (rule id_take_nth_drop)
  then have "demand b sc xs = demand b sc (take i xs @ (xs ! i) # drop (Suc i) xs)" by simp
  then show ?thesis by (simp add: removeAt_def demand_append)
qed

lemma record_sels [simp]:
  "\<not> isError (wholeRecord s room seatsLeft)"
  "roomNo (wholeRecord s room seatsLeft) = no room"
  "astudents (wholeRecord s room seatsLeft) = students s"
  "startSeat (wholeRecord s room seatsLeft) = Some (capacity room - seatsLeft + 1)"
  "endSeat (wholeRecord s room seatsLeft) = Some (capacity room - seatsLeft + students s)"
  "abranch (wholeRecord s room seatsLeft) = branch s"
  "asect (wholeRecord s room seatsLeft) = sect s"
  "\<not> isError (partialRecord s room seatsLeft chunk)"
  "roomNo (partialRecord s room seatsLeft chunk) = no room"
  "astudents (partialRecord s room seatsLeft chunk) = chunk"
  "startSeat (partialRecord s room seatsLeft chunk) = Some (capacity room - seatsLeft + 1)"
  "endSeat (partialRecord s room seatsLeft chunk) = Some (capacity room - seatsLeft + chunk)"
  "abranch (partialRecord s room seatsLeft chunk) = branch s"
  "asect (partialRecord s room seatsLeft chunk) = sect s"
  "\<not> isError (perfectRecord s room seatsLeft)"
  "roomNo (perfectRecord s room seatsLeft) = no room"
  "astudents (perfectRecord s room seatsLeft) = seatsLeft"
  "startSeat (perfectRecord s room seatsLeft) = Some 1"
  "endSeat (perfectRecord s room seatsLeft) = Some seatsLeft"
  "abranch (perfectRecord s room seatsLeft) = branch s"
  "asect (perfectRecord s room seatsLeft) = sect s"
  by (simp_all add: wholeRecord_def partialRecord_def perfectRecord_def isError_def)

lemma fillInv_step:
  assumes inv: "fillInv room (seatsLeft, sl, allocs)"
    and a: "\<not> isError a" "roomNo a = no room" "astudents a = n"
      "startSeat a = Some (capacity room - seatsLeft + 1)"
      "endSeat a = Some (capacity room - seatsLeft + n)"
    and n: "0 < n" "n \<le> seatsLeft" and sl': "secPos sl'"
  shows "fillInv room (seatsLeft - n, sl', allocs @ [a])"
proof -
  from inv have ch: "chained 0 allocs" and sm: "sumStudents allocs = capacity room - seatsLeft"
    and rr: "roomRecords (no room) allocs = allocs"
    by (simp_all add: fillInv_def)
  have "chained 0 (allocs @ [a])"
    using ch sm a n by (simp add: chained_append chained_Cons del: chained.simps(2))
  moreover have "sumStudents (allocs @ [a]) = capacity room - (seatsLeft - n)"
    using sm a by simp
  moreover have "roomRecords (no room) (allocs @ [a]) = allocs @ [a]"
    using rr a by (simp add: roomRecords_snoc)
  moreover have "0 \<le> seatsLeft - n" using n by simp
  ultimately show ?thesis using sl' by (simp add: fillInv_def)
qed

lemma fillRoom_stop:
  "\<not> (seatsLeft > 0 \<and> sectionLeft \<noteq> []) \<Longrightarrow>
     fillRoom minChunk allRooms roomUsage room (seatsLeft, sectionLeft, allocs)
       = (seatsLeft, sectionLeft, allocs)"
  by (subst fillRoom.simps) (simp cong: conj_cong)

lemma fillRoom_whole_break:
  "seatsLeft > 0 \<and> sectionLeft \<noteq> [] \<Longrightarrow>
   fst (bestScan seatsLeft sectionLeft 0 (None, 0)) = Some bestIdx \<Longrightarrow>
   wholeGuardBreaks minChunk allRooms roomUsage room seatsLeft
     (sectionLeft ! bestIdx) (sectionLeft ! bestIdx) \<Longrightarrow>
     fillRoom minChunk allRooms roomUsage room (seatsLeft, sectionLeft, allocs)
       = (seatsLeft, sectionLeft, allocs)"
  by (subst fillRoom.simps) simp

lemma fillRoom_whole:
  "seatsLeft > 0 \<and> sectionLeft \<noteq> [] \<Longrightarrow>
   fst (bestScan seatsLeft sectionLeft 0 (None, 0)) = Some bestIdx \<Longrightarrow>
   \<not> wholeGuardBreaks minChunk allRooms roomUsage room seatsLeft
     (sectionLeft ! bestIdx) (sectionLeft ! bestIdx) \<Longrightarrow>
     fillRoom minChunk allRooms roomUsage room (seatsLeft, sectionLeft, allocs)
       = fillRoom minChunk allRooms roomUsage room
           (seatsLeft - students (sectionLeft ! bestIdx), removeAt bestIdx sectionLeft,
            allocs @ [wholeRecord (sectionLeft ! bestIdx) room seatsLeft])"
  by (subst fillRoom.simps) simp

lemma fillRoom_partial_break:
  "seatsLeft > 0 \<and> sectionLeft \<noteq> [] \<Longrightarrow>
   fst (bestScan seatsLeft sectionLeft 0 (None, 0)) = None \<Longrightarrow>
   sort_key (\<lambda>s. - students s) sectionLeft = s # others \<Longrightarrow>
   (students s - seatsLeft > 0 \<and> students s - seatsLeft < minChunk \<and> seatsLeft < minChunk)
   \<or> partialGuardBreaks minChunk allRooms roomUsage room seatsLeft s (min seatsLeft (students s))
   \<Longrightarrow>
     fillRoom minChunk allRooms roomUsage room (seatsLeft, sectionLeft, allocs)
       = (seatsLeft, s # others, allocs)"
  by (subst fillRoom.simps) auto

lemma fillRoom_partial:
  "seatsLeft > 0 \<and> sectionLeft \<noteq> [] \<Longrightarrow>
   fst (bestScan seatsLeft sectionLeft 0 (None, 0)) = None \<Longrightarrow>
   sort_key (\<lambda>s. - students s) sectionLeft = s # others \<Longrightarrow>
   \<not> (students s - seatsLeft > 0 \<and> students s - seatsLeft < minChunk \<and> seatsLeft < minChunk) \<Longrightarrow>
   \<not> partialGuardBreaks minChunk allRooms roomUsage room seatsLeft s (min seatsLeft (students s))
   \<Longrightarrow>
     fillRoom minChunk allRooms roomUsage room (seatsLeft, sectionLeft, allocs)
       = fillRoom minChunk allRooms roomUsage room
           (seatsLeft - min seatsLeft (students s),
            (if students s - min seatsLeft (students s) = 0 then others
             else s\<lparr>students := students s - min seatsLeft (students s)\<rparr> # others),
            allocs @ [partialRecord s room seatsLeft (min seatsLeft (students s))])"
  by (subst fillRoom.simps) (simp cong: conj_cong)

lemma fillRoom_inv:
  "fillInv room st \<Longrightarrow> fillInv room (fillRoom minChunk allRooms roomUsage room st)"
proof (induction minChunk allRooms roomUsage room st rule: fillRoom.induct)
  case (1 minChunk allRooms roomUsage room seatsLeft sectionLeft allocs)
  note inv = "1.prems"
  from inv have pos: "secPos sectionLeft" by (simp add: fillInv_def)
  show ?case
  proof (cases "seatsLeft > 0 \<and> sectionLeft \<noteq> []")
    case False
    from fillRoom_stop [OF this] inv show ?thesis by simp
  next
    case loop: True
    show ?thesis
    proof (cases "fst (bestScan seatsLeft sectionLeft 0 (None, 0))")
      case (Some bestIdx)
      let ?s = "sectionLeft ! bestIdx"
      from bestScan_whole [OF Some]
      have fit: "bestIdx < length sectionLeft" "0 < students ?s" "students ?s \<le> seatsLeft"
        by simp_all
      show ?thesis
      proof (cases "wholeGuardBreaks minChunk allRooms roomUsage room seatsLeft ?s ?s")
        case True
        from fillRoom_whole_break [OF loop Some True] inv show ?thesis by simp
      next
        case False
        have "fillInv room (seatsLeft - students ?s, removeAt bestIdx sectionLeft,
                allocs @ [wholeRecord ?s room seatsLeft])"
          using fit by (intro fillInv_step [OF inv] secPos_removeAt [OF pos]) simp_all
        from "1.IH"(2) [OF loop Some False this] fillRoom_whole [OF loop Some False]
        show ?thesis by simp
      qed
    next
      case None
      show ?thesis
      proof (cases "sort_key (\<lambda>s. - students s) sectionLeft")
        case Nil
        with loop show ?thesis by (metis length_sort length_0_conv)
      next
        case (Cons s others)
        have "set (s # others) = set sectionLeft"
          using Cons set_sort [of "\<lambda>s. - students s" sectionLeft] by simp
        then have spos: "0 < students s" and opos: "secPos others"
          using pos by (auto intro!: secPosI dest: secPosD)
        from inv have inv': "fillInv room (seatsLeft, s # others, allocs)"
          using spos opos by (simp add: fillInv_def)
        let ?chunk = "min seatsLeft (students s)"
        let ?brk = "(students s - seatsLeft > 0 \<and> students s - seatsLeft < minChunk
                     \<and> seatsLeft < minChunk)
                    \<or> partialGuardBreaks minChunk allRooms roomUsage room seatsLeft s ?chunk"
        show ?thesis
        proof (cases ?brk)
          case True
          from fillRoom_partial_break [OF loop None Cons True] inv' show ?thesis by simp
        next
          case False
          let ?sl' = "if students s - ?chunk = 0 then others
                      else s\<lparr>students := students s - ?chunk\<rparr> # others"
          have "secPos ?sl'" using spos opos by (simp add: min_def)
          moreover have "0 < ?chunk" "?chunk \<le> seatsLeft" using spos loop by simp_all
          ultimately have "fillInv room (seatsLeft - ?chunk, ?sl',
                allocs @ [partialRecord s room seatsLeft ?chunk])"
            by (intro fillInv_step [OF inv]) simp_all
          moreover note this
          moreover from False
          have c1: "\<not> (students s - seatsLeft > 0 \<and> students s - seatsLeft < minChunk
                         \<and> seatsLeft < minChunk)"
            and c2: "\<not> partialGuardBreaks minChunk allRooms roomUsage room seatsLeft s ?chunk"
            by blast+
          ultimately have "fillInv room (fillRoom minChunk allRooms roomUsage room
                (seatsLeft - ?chunk, ?sl', allocs @ [partialRecord s room seatsLeft ?chunk]))"
            using "1.IH"(1) [OF loop None Cons c1 c2] by blast
          with fillRoom_partial [OF loop None Cons c1 c2]
          show ?thesis by simp
        qed
      qed
    qed
  qed
qed

lemma recordsFor_append: "recordsFor b sc (xs @ ys) = recordsFor b sc xs @ recordsFor b sc ys"
  by (simp add: recordsFor_def)

lemma total_snoc:
  "total b sc sl (allocs @ [a])
     = total b sc sl allocs + (if abranch a = b \<and> asect a = sc then astudents a else 0)"
  by (simp add: total_def recordsFor_snoc)

lemma fillRoom_total:
  "fillRoom minChunk allRooms roomUsage room (seatsLeft, sectionLeft, allocs)
     = (seatsLeft', sectionLeft', allocs')
   \<Longrightarrow> total b sc sectionLeft' allocs' = total b sc sectionLeft allocs"
proof (induction minChunk allRooms roomUsage room "(seatsLeft, sectionLeft, allocs)"
    arbitrary: seatsLeft sectionLeft allocs rule: fillRoom.induct)
  case (1 minChunk allRooms roomUsage room seatsLeft sectionLeft allocs)
  note run = "1.prems"
  show ?case
  proof (cases "seatsLeft > 0 \<and> sectionLeft \<noteq> []")
    case False
    from fillRoom_stop [OF this] run show ?thesis by simp
  next
    case loop: True
    show ?thesis
    proof (cases "fst (bestScan seatsLeft sectionLeft 0 (None, 0))")
      case (Some bestIdx)
      let ?s = "sectionLeft ! bestIdx"
      from bestScan_whole [OF Some] have fit: "bestIdx < length sectionLeft" by simp
      show ?thesis
      proof (cases "wholeGuardBreaks minChunk allRooms roomUsage room seatsLeft ?s ?s")
        case True
        from fillRoom_whole_break [OF loop Some True] run show ?thesis by simp
      next
        case False
        from fillRoom_whole [OF loop Some False] run
        have "fillRoom minChunk allRooms roomUsage room
                (seatsLeft - students ?s, removeAt bestIdx sectionLeft,
                 allocs @ [wholeRecord ?s room seatsLeft]) = (seatsLeft', sectionLeft', allocs')"
          by simp
        from "1.hyps"(2) [OF loop Some False this]
        have "total b sc sectionLeft' allocs'
                = total b sc (removeAt bestIdx sectionLeft) (allocs @ [wholeRecord ?s room seatsLeft])" .
        also have "\<dots> = total b sc sectionLeft allocs"
          using demand_removeAt [OF fit, of b sc]
          by (auto simp: total_def recordsFor_snoc split: if_splits)
        finally show ?thesis .
      qed
    next
      case None
      show ?thesis
      proof (cases "sort_key (\<lambda>s. - students s) sectionLeft")
        case Nil
        with loop show ?thesis by (metis length_sort length_0_conv)
      next
        case (Cons s others)
        have dem: "demand b sc (s # others) = demand b sc sectionLeft"
          using demand_sort_key [of b sc "\<lambda>s. - students s" sectionLeft] Cons by simp
        let ?chunk = "min seatsLeft (students s)"
        let ?brk = "(students s - seatsLeft > 0 \<and> students s - seatsLeft < minChunk
                     \<and> seatsLeft < minChunk)
                    \<or> partialGuardBreaks minChunk allRooms roomUsage room seatsLeft s ?chunk"
        show ?thesis
        proof (cases ?brk)
          case True
          from fillRoom_partial_break [OF loop None Cons True] run dem
          show ?thesis by (auto simp: total_def)
        next
          case False
          let ?sl' = "if students s - ?chunk = 0 then others
                      else s\<lparr>students := students s - ?chunk\<rparr> # others"
          from False
          have c1: "\<not> (students s - seatsLeft > 0 \<and> students s - seatsLeft < minChunk
                         \<and> seatsLeft < minChunk)"
            and c2: "\<not> partialGuardBreaks minChunk allRooms roomUsage room seatsLeft s ?chunk"
            by blast+
          from fillRoom_partial [OF loop None Cons c1 c2] run
          have "fillRoom minChunk allRooms roomUsage room
                  (seatsLeft - ?chunk, ?sl', allocs @ [partialRecord s room seatsLeft ?chunk])
                = (seatsLeft', sectionLeft', allocs')"
            by simp
          from "1.hyps"(1) [OF loop None Cons c1 c2 this]
          have "total b sc sectionLeft' allocs'
                  = total b sc ?sl' (allocs @ [partialRecord s room seatsLeft ?chunk])" .
          also have "\<dots> = total b sc (s # others) allocs"
            by (simp add: total_def recordsFor_snoc)
          also have "\<dots> = total b sc sectionLeft allocs"
            using dem by (simp add: total_def)
          finally show ?thesis .
        qed
      qed
    qed
  qed
qed

lemma findIndex_Some: "findIndex P xs = Some i \<Longrightarrow> i < length xs \<and> P (xs ! i)"
proof (induction xs arbitrary: i)
  case Nil
  then show ?case by simp
next
  case (Cons x xs)
  show ?case
  proof (cases "P x")
    case True
    with Cons.prems show ?thesis by simp
  next
    case False
    with Cons.prems obtain j where "findIndex P xs = Some j" "i = Suc j" by auto
    with Cons.IH [of j] show ?thesis by simp
  qed
qed

lemma roomRecords_all:
  "roomRecords k allocs = allocs \<Longrightarrow> a \<in> set allocs \<Longrightarrow> \<not> isError a \<and> roomNo a = k"
  unfolding roomRecords_def by (metis (mono_tags, lifting) filter_id_conv)

lemma roomRecords_other:
  assumes "roomRecords k allocs = allocs" "k' \<noteq> k"
  shows "roomRecords k' allocs = []"
proof -
  have "\<And>a. a \<in> set allocs \<Longrightarrow> \<not> (\<not> isError a \<and> roomNo a = k')"
    using roomRecords_all [OF assms(1)] assms(2) by simp
  then show ?thesis unfolding roomRecords_def by (simp add: filter_empty_conv)
qed

lemma usageInv_room:
  assumes inv: "usageInv u res" and fresh: "roomRecords k res = []"
    and ch: "chained 0 allocs" and rr: "roomRecords k allocs = allocs"
  shows "usageInv (if allocs \<noteq> [] then AList.update k (sumStudents allocs) u else u) (res @ allocs)"
proof (cases "allocs = []")
  case True
  with inv show ?thesis by simp
next
  case False
  have "chained 0 (roomRecords k' (res @ allocs))
        \<and> map_of (AList.update k (sumStudents allocs) u) k' =
            (if roomRecords k' (res @ allocs) = [] then None
             else Some (sumStudents (roomRecords k' (res @ allocs))))" for k'
  proof (cases "k' = k")
    case True
    with fresh rr ch False show ?thesis by (simp add: roomRecords_append update_conv')
  next
    case ne: False
    from roomRecords_other [OF rr ne] have "roomRecords k' allocs = []" .
    with inv ne show ?thesis by (simp add: roomRecords_append update_conv' usageInv_def)
  qed
  moreover have "errorsTagged allocs"
    using roomRecords_all [OF rr] by (simp add: errorsTagged_def list_all_iff)
  ultimately show ?thesis
    using False usageInv_tagged [OF inv] unfolding usageInv_def by simp
qed

subsection \<open>Greedy Lookahead: the loop over the rooms\<close>

lemma fillInv_start:
  assumes pos: "secPos sectionLeft"
  shows "fillInv room
           (case findIndex (\<lambda>s. students s = capacity room) sectionLeft of
              Some perfectIdx \<Rightarrow>
                (0, removeAt perfectIdx sectionLeft,
                 [perfectRecord (sectionLeft ! perfectIdx) room (capacity room)])
            | None \<Rightarrow> (capacity room, sectionLeft, []))"
proof (cases "findIndex (\<lambda>s. students s = capacity room) sectionLeft")
  case None
  with pos show ?thesis by (simp add: fillInv_def roomRecords_def)
next
  case (Some i)
  from findIndex_Some [OF Some] have i: "i < length sectionLeft"
    and eq: "students (sectionLeft ! i) = capacity room" by simp_all
  from i have "sectionLeft ! i \<in> set sectionLeft" by simp
  from secPosD [OF pos this] eq have cap: "0 < capacity room" by simp
  have "chained 0 [perfectRecord (sectionLeft ! i) room (capacity room)]"
    using cap by (simp add: chained_Cons del: chained.simps(2))
  with Some cap secPos_removeAt [OF pos, of i] show ?thesis
    by (simp add: fillInv_def roomRecords_def)
qed

lemma total_start:
  "(case findIndex (\<lambda>s. students s = capacity room) sectionLeft of
      Some perfectIdx \<Rightarrow>
        (0, removeAt perfectIdx sectionLeft,
         [perfectRecord (sectionLeft ! perfectIdx) room (capacity room)])
    | None \<Rightarrow> (capacity room, sectionLeft, [])) = (seatsLeft0, sl0, allocs0)
   \<Longrightarrow> total b sc sl0 allocs0 = demand b sc sectionLeft"
proof (cases "findIndex (\<lambda>s. students s = capacity room) sectionLeft")
  case None
  assume "(case findIndex (\<lambda>s. students s = capacity room) sectionLeft of
      Some perfectIdx \<Rightarrow>
        (0, removeAt perfectIdx sectionLeft,
         [perfectRecord (sectionLeft ! perfectIdx) room (capacity room)])
    | None \<Rightarrow> (capacity room, sectionLeft, [])) = (seatsLeft0, sl0, allocs0)"
  with None show ?thesis by (simp add: total_def recordsFor_def)
next
  case (Some i)
  assume "(case findIndex (\<lambda>s. students s = capacity room) sectionLeft of
      Some perfectIdx \<Rightarrow>
        (0, removeAt perfectIdx sectionLeft,
         [perfectRecord (sectionLeft ! perfectIdx) room (capacity room)])
    | None \<Rightarrow> (capacity room, sectionLeft, [])) = (seatsLeft0, sl0, allocs0)"
  with Some have sl0: "sl0 = removeAt i sectionLeft"
    and a0: "allocs0 = [perfectRecord (sectionLeft ! i) room (capacity room)]" by simp_all
  from findIndex_Some [OF Some] have i: "i < length sectionLeft"
    and eq: "students (sectionLeft ! i) = capacity room" by simp_all
  from demand_removeAt [OF i, of b sc] eq sl0 a0 show ?thesis
    by (auto simp: total_def recordsFor_def split: if_splits)
qed

lemma freshRooms_simps [simp]:
  "freshRooms [] result = True"
  "freshRooms (r # rs) result = (roomRecords (no r) result = [] \<and> freshRooms rs result)"
  by (simp_all add: freshRooms_def)

lemma freshRooms_append:
  assumes "freshRooms rs res" "roomRecords k allocs = allocs" "k \<notin> set (map no rs)"
  shows "freshRooms rs (res @ allocs)"
  using assms
proof (induction rs)
  case Nil
  then show ?case by simp
next
  case (Cons r rs)
  then have "no r \<noteq> k" by auto
  from roomRecords_other [OF Cons.prems(2) this] Cons show ?case
    by (simp add: roomRecords_append)
qed

lemma lookaheadRooms_inv:
  assumes "lookaheadRooms minChunk allRooms rs (sl, u, res) = (sl', u', res')"
    and "distinct (map no rs)" "set rs \<subseteq> set allRooms" "sameCap allRooms"
    and "secPos sl" "usageInv u res" "capInv allRooms u" "freshRooms rs res"
  shows "secPos sl' \<and> usageInv u' res' \<and> capInv allRooms u'"
  using assms
proof (induction rs arbitrary: sl u res)
  case Nil
  then show ?case by simp
next
  case (Cons room rest)
  let ?start = "case findIndex (\<lambda>s. students s = capacity room) sl of
                  Some perfectIdx \<Rightarrow>
                    (0, removeAt perfectIdx sl, [perfectRecord (sl ! perfectIdx) room (capacity room)])
                | None \<Rightarrow> (capacity room, sl, [])"
  obtain seatsLeft1 sl1 allocs where fill:
    "fillRoom minChunk allRooms u room ?start = (seatsLeft1, sl1, allocs)"
    by (cases "fillRoom minChunk allRooms u room ?start") auto
  from fillRoom_inv [of room _ minChunk allRooms u, OF fillInv_start [OF Cons.prems(5)]] fill
  have fi: "fillInv room (seatsLeft1, sl1, allocs)" by simp
  then have pos1: "secPos sl1" and ch: "chained 0 allocs"
    and sm: "sumStudents allocs = capacity room - seatsLeft1"
    and rr: "roomRecords (no room) allocs = allocs"
    and ge: "0 \<le> seatsLeft1 \<or> allocs = []"
    by (simp_all add: fillInv_def)
  let ?u1 = "if allocs \<noteq> [] then AList.update (no room) (capacity room - seatsLeft1) u else u"
  from Cons.prems(8) have fresh: "roomRecords (no room) res = []" and frest: "freshRooms rest res"
    by simp_all
  have inv1: "usageInv ?u1 (res @ allocs)"
    using usageInv_room [OF Cons.prems(6) fresh ch rr] by (simp only: sm)
  have room: "room \<in> set allRooms" using Cons.prems(3) by simp
  have cap1: "capInv allRooms ?u1"
  proof (cases "allocs = []")
    case True
    with Cons.prems(7) show ?thesis by simp
  next
    case False
    with ge have "capacity room - seatsLeft1 \<le> capacity room" by simp
    from capInv_place [OF Cons.prems(7) Cons.prems(4) room this] False show ?thesis by simp
  qed
  from Cons.prems(2) have nin: "no room \<notin> set (map no rest)" and drest: "distinct (map no rest)"
    by simp_all
  from freshRooms_append [OF frest rr nin] have fresh1: "freshRooms rest (res @ allocs)" .
  from Cons.prems(1) fill
  have "lookaheadRooms minChunk allRooms rest (sl1, ?u1, res @ allocs) = (sl', u', res')"
    by simp
  from Cons.IH [OF this drest _ Cons.prems(4) pos1 inv1 cap1 fresh1] Cons.prems(3)
  show ?case by simp
qed

lemma lookaheadRooms_total:
  assumes "lookaheadRooms minChunk allRooms rs (sl, u, res) = (sl', u', res')"
  shows "total b sc sl' res' = total b sc sl res"
  using assms
proof (induction rs arbitrary: sl u res)
  case Nil
  then show ?case by simp
next
  case (Cons room rest)
  let ?start = "case findIndex (\<lambda>s. students s = capacity room) sl of
                  Some perfectIdx \<Rightarrow>
                    (0, removeAt perfectIdx sl, [perfectRecord (sl ! perfectIdx) room (capacity room)])
                | None \<Rightarrow> (capacity room, sl, [])"
  obtain seatsLeft0 sl0 allocs0 where start: "?start = (seatsLeft0, sl0, allocs0)"
    by (cases ?start) auto
  obtain seatsLeft1 sl1 allocs where fill:
    "fillRoom minChunk allRooms u room (seatsLeft0, sl0, allocs0) = (seatsLeft1, sl1, allocs)"
    by (cases "fillRoom minChunk allRooms u room (seatsLeft0, sl0, allocs0)") auto
  let ?u1 = "if allocs \<noteq> [] then AList.update (no room) (capacity room - seatsLeft1) u else u"
  from Cons.prems fill start
  have "lookaheadRooms minChunk allRooms rest (sl1, ?u1, res @ allocs) = (sl', u', res')"
    by simp
  from Cons.IH [OF this] have "total b sc sl' res' = total b sc sl1 (res @ allocs)" .
  also have "\<dots> = sumStudents (recordsFor b sc res) + total b sc sl1 allocs"
    by (simp add: total_def recordsFor_append)
  also have "total b sc sl1 allocs = total b sc sl0 allocs0"
    using fill by (rule fillRoom_total)
  also have "\<dots> = demand b sc sl" using start by (rule total_start)
  finally show ?case by (simp add: total_def)
qed

lemma errors_total:
  assumes "secPos sl"
  shows "sumStudents (recordsFor b sc (map (\<lambda>s. errorRecord s (students s))
            (filter (\<lambda>s. students s > 0) sl))) = demand b sc sl"
  using assms by (induction sl) (simp_all add: recordsFor_def)

lemma errors_roomRecords:
  "roomRecords k (res @ map (\<lambda>s. errorRecord s (students s)) xs) = roomRecords k res"
  by (induction xs) (simp_all add: roomRecords_def)

lemma usageInv_errors:
  "usageInv u res \<Longrightarrow> usageInv u (res @ map (\<lambda>s. errorRecord s (students s)) xs)"
  by (simp add: usageInv_def errors_roomRecords) (simp add: errorsTagged_def list_all_iff)

lemma distinct_sortedRooms:
  assumes "uniqueRoomIds roomBlocks"
  shows "distinct (map no (sortedRooms roomBlocks))"
proof -
  from assms have "distinct (map no (flattenRooms roomBlocks))"
    by (simp add: uniqueRoomIds_def map_no_flattenRooms)
  then show ?thesis
    unfolding sortedRooms_def by (simp only: distinct_map distinct_sort set_sort)
qed

lemma freshRooms_Nil: "freshRooms rs []"
  by (induction rs) (simp_all add: roomRecords_def)

lemma lookaheadRooms_secPos:
  assumes "lookaheadRooms minChunk allRooms rs (sl, u, res) = (sl', u', res')" and "secPos sl"
  shows "secPos sl'"
  using assms
proof (induction rs arbitrary: sl u res)
  case Nil
  then show ?case by simp
next
  case (Cons room rest)
  let ?start = "case findIndex (\<lambda>s. students s = capacity room) sl of
                  Some perfectIdx \<Rightarrow>
                    (0, removeAt perfectIdx sl, [perfectRecord (sl ! perfectIdx) room (capacity room)])
                | None \<Rightarrow> (capacity room, sl, [])"
  obtain seatsLeft1 sl1 allocs where fill:
    "fillRoom minChunk allRooms u room ?start = (seatsLeft1, sl1, allocs)"
    by (cases "fillRoom minChunk allRooms u room ?start") auto
  from fillRoom_inv [of room _ minChunk allRooms u, OF fillInv_start [OF Cons.prems(2)]] fill
  have pos1: "secPos sl1" by (simp add: fillInv_def)
  let ?u1 = "if allocs \<noteq> [] then AList.update (no room) (capacity room - seatsLeft1) u else u"
  from Cons.prems(1) fill
  have "lookaheadRooms minChunk allRooms rest (sl1, ?u1, res @ allocs) = (sl', u', res')"
    by simp
  from Cons.IH [OF this pos1] show ?case .
qed

lemma lookahead_run:
  assumes "allocateGreedyLookahead roomBlocks sections minChunk = (res, u)"
  shows "sumStudents (recordsFor b sc res) = demand b sc (filter validSection sections)"
    and "uniqueRoomIds roomBlocks \<Longrightarrow> usageInv u res \<and> capInv (sortedRooms roomBlocks) u"
proof -
  obtain sl' u' res' where run:
    "lookaheadRooms minChunk (sortedRooms roomBlocks) (sortedRooms roomBlocks)
       (sortedSections sections, [], []) = (sl', u', res')"
    by (cases "lookaheadRooms minChunk (sortedRooms roomBlocks) (sortedRooms roomBlocks)
       (sortedSections sections, [], [])") auto
  with assms have res: "res = res' @ map (\<lambda>s. errorRecord s (students s))
                       (filter (\<lambda>s. students s > 0) sl')" and u: "u = u'"
    by (simp_all add: allocateGreedyLookahead_def)
  from lookaheadRooms_secPos [OF run secPos_sortedSections] have pos': "secPos sl'" .
  from lookaheadRooms_total [OF run, of b sc]
  have tot: "total b sc sl' res' = demand b sc (sortedSections sections)"
    by (simp add: total_def recordsFor_def)
  show "sumStudents (recordsFor b sc res) = demand b sc (filter validSection sections)"
    using tot errors_total [OF pos', of b sc]
    by (simp add: res total_def recordsFor_append sortedSections_def demand_sort_key)
  show "usageInv u res \<and> capInv (sortedRooms roomBlocks) u" if uniq: "uniqueRoomIds roomBlocks"
  proof -
    from lookaheadRooms_inv [OF run distinct_sortedRooms [OF uniq] subset_refl
        sameCap_sortedRooms [OF uniq] secPos_sortedSections usageInv_empty capInv_empty
        freshRooms_Nil]
    have "usageInv u' res'" "capInv (sortedRooms roomBlocks) u'" by simp_all
    with res u show ?thesis by (simp add: usageInv_errors)
  qed
qed

subsection \<open>Best-Fit/FFD: numbers and \<^verbatim>\<open>NaN\<close>\<close>

text \<open>
  The usage map and the records of Best-Fit/FFD without their \<^verbatim>\<open>NaN\<close> entries are a
  usage map and a list of records as the other strategies have them.
\<close>

lemma properRecords_simps [simp]:
  "properRecords [] = []"
  "properRecords (xs @ ys) = properRecords xs @ properRecords ys"
  "properRecords [Rec a] = [a]"
  "properRecords [NaNRec b sc st] = []"
  by (simp_all add: properRecords_def)

lemma numUsage_simps [simp]:
  "numUsage [] = []"
  "numUsage ((k, Some n) # u) = (k, n) # numUsage u"
  "numUsage ((k, None) # u) = numUsage u"
  by (simp_all add: numUsage_def)

lemma nanKeyed_simps [simp]:
  "nanKeyed [] = True"
  "nanKeyed ((k, v) # u) = (((v = None) = (k = ''undefined'')) \<and> nanKeyed u)"
  by (simp_all add: nanKeyed_def)

lemma foundRooms_set: "(r \<in> set (foundRooms allRooms)) = (Some r \<in> set allRooms)"
  by (induction allRooms) (auto simp: foundRooms_def split: option.splits)

lemma numUsage_no_undefined: "nanKeyed u \<Longrightarrow> map_of (numUsage u) ''undefined'' = None"
proof (induction u)
  case Nil
  then show ?case by simp
next
  case (Cons p u)
  obtain k v where p: "p = (k, v)" by (cases p)
  from Cons.prems p have nk: "nanKeyed u" and kv: "(v = None) = (k = ''undefined'')"
    by simp_all
  show ?case
  proof (cases v)
    case None
    with Cons.IH [OF nk] p show ?thesis by simp
  next
    case (Some n)
    with kv have "k \<noteq> ''undefined''" by simp
    with Cons.IH [OF nk] p Some show ?thesis by simp
  qed
qed

lemma usedOf_numUsage: "nanKeyed u \<Longrightarrow> usedOf u k = usageOf (numUsage u) k"
proof (induction u)
  case Nil
  then show ?case by (simp add: usedOf_def usageOf_def)
next
  case (Cons p u)
  obtain k' v where p: "p = (k', v)" by (cases p)
  from Cons.prems p have nk: "nanKeyed u" by simp
  show ?case
  proof (cases v)
    case None
    with Cons.prems p have k': "k' = ''undefined''" by simp
    show ?thesis
    proof (cases "k = k'")
      case True
      with k' numUsage_no_undefined [OF nk] None p show ?thesis
        by (simp add: usedOf_def usageOf_def)
    next
      case False
      with Cons.IH [OF nk] None p show ?thesis by (simp add: usedOf_def usageOf_def)
    qed
  next
    case (Some n)
    with Cons.IH [OF nk] p show ?thesis by (simp add: usedOf_def usageOf_def)
  qed
qed

lemma map_of_numUsage:
  "nanKeyed u \<Longrightarrow> k \<noteq> ''undefined'' \<Longrightarrow> map_of u k = map_option Some (map_of (numUsage u) k)"
proof (induction u)
  case Nil
  then show ?case by simp
next
  case (Cons p u)
  obtain k' v where p: "p = (k', v)" by (cases p)
  from Cons.prems p have nk: "nanKeyed u" by simp
  show ?case
  proof (cases v)
    case None
    with Cons.prems p have "k' = ''undefined''" by simp
    with Cons.IH [OF nk Cons.prems(2)] Cons.prems(2) None p show ?thesis by simp
  next
    case (Some n)
    with Cons.IH [OF nk Cons.prems(2)] p show ?thesis by simp
  qed
qed

lemma numUsage_update_Some:
  "nanKeyed u \<Longrightarrow> k \<noteq> ''undefined''
     \<Longrightarrow> numUsage (AList.update k (Some n) u) = AList.update k n (numUsage u)"
proof (induction u)
  case Nil
  then show ?case by simp
next
  case (Cons p u)
  obtain k' v where p: "p = (k', v)" by (cases p)
  from Cons.prems p have nk: "nanKeyed u" by simp
  show ?case
  proof (cases v)
    case None
    with Cons.prems p have "k' = ''undefined''" by simp
    with Cons.IH [OF nk Cons.prems(2)] Cons.prems(2) None p show ?thesis by simp
  next
    case (Some m)
    with Cons.IH [OF nk Cons.prems(2)] p show ?thesis by simp
  qed
qed

lemma numUsage_update_NaN:
  "nanKeyed u \<Longrightarrow> numUsage (AList.update ''undefined'' None u) = numUsage u"
proof (induction u)
  case Nil
  then show ?case by simp
next
  case (Cons p u)
  obtain k' v where p: "p = (k', v)" by (cases p)
  from Cons.prems p have nk: "nanKeyed u" by simp
  show ?case
  proof (cases v)
    case None
    with Cons.IH [OF nk] p show ?thesis by simp
  next
    case (Some m)
    with Cons.prems p have "k' \<noteq> ''undefined''" by simp
    with Cons.IH [OF nk] Some p show ?thesis by simp
  qed
qed

lemma nanKeyed_update_Some:
  "nanKeyed u \<Longrightarrow> k \<noteq> ''undefined'' \<Longrightarrow> nanKeyed (AList.update k (Some n) u)"
proof (induction u)
  case Nil
  then show ?case by simp
next
  case (Cons p u)
  obtain k' v where p: "p = (k', v)" by (cases p)
  with Cons show ?case by simp
qed

lemma nanKeyed_update_NaN: "nanKeyed u \<Longrightarrow> nanKeyed (AList.update ''undefined'' None u)"
proof (induction u)
  case Nil
  then show ?case by simp
next
  case (Cons p u)
  obtain k' v where p: "p = (k', v)" by (cases p)
  with Cons show ?case by simp
qed

subsection \<open>Best-Fit/FFD: the loop for one section\<close>

lemma bestFitScan_fits:
  "bestFitScan blocks mbi u remaining rs i (bi, bs) = (Some (j, r), sp) \<Longrightarrow>
     bi = Some (j, r)
     \<or> (Some r \<in> set rs \<and> remaining \<le> capacity r - usedOf u (no r))"
proof (induction rs arbitrary: i bi bs)
  case Nil
  then show ?case by simp
next
  case (Cons room rest)
  show ?case
  proof (cases room)
    case None
    with Cons.prems
    have "bestFitScan blocks mbi u remaining rest (Suc i) (bi, bs) = (Some (j, r), sp)"
      by (simp split: if_splits)
    from Cons.IH [OF this] show ?thesis by auto
  next
    case (Some r')
    let ?avail = "capacity r' - usedOf u (no r')"
    show ?thesis
    proof (cases "\<not> blockLocked blocks mbi (roomKey room) \<and> ?avail \<ge> remaining
                   \<and> (case bs of None \<Rightarrow> True | Some space \<Rightarrow> ?avail < space)")
      case True
      with Cons.prems Some
      have "bestFitScan blocks mbi u remaining rest (Suc i) (Some (i, r'), Some ?avail)
              = (Some (j, r), sp)"
        by (simp add: Let_def)
      from Cons.IH [OF this] True Some show ?thesis by auto
    next
      case False
      with Cons.prems Some
      have "bestFitScan blocks mbi u remaining rest (Suc i) (bi, bs) = (Some (j, r), sp)"
        by (auto simp: Let_def split: if_splits)
      from Cons.IH [OF this] show ?thesis by auto
    qed
  qed
qed

lemma bestFitScan_room:
  assumes "fst (bestFitScan blocks mbi u remaining rs 0 (None, None)) = Some (j, r)"
  shows "Some r \<in> set rs \<and> remaining \<le> capacity r - usedOf u (no r)"
proof -
  obtain sp where "bestFitScan blocks mbi u remaining rs 0 (None, None) = (Some (j, r), sp)"
    using assms by (cases "bestFitScan blocks mbi u remaining rs 0 (None, None)") auto
  from bestFitScan_fits [OF this] show ?thesis by auto
qed

lemma firstFitScan_room:
  "firstFitScan minChunk allRooms blocks mbi u remaining rs = Fit room used t \<Longrightarrow>
     Some room \<in> set rs \<and> used = usedOf u (no room) \<and> t = min (capacity room - used) remaining
     \<and> 0 < capacity room - used"
proof (induction rs)
  case Nil
  then show ?case by simp
next
  case (Cons r rest)
  show ?case
  proof (cases "blockLocked blocks mbi (roomKey r)")
    case True
    with Cons.prems
    have "firstFitScan minChunk allRooms blocks mbi u remaining rest = Fit room used t" by simp
    from Cons.IH [OF this] show ?thesis by simp
  next
    case unlocked: False
    show ?thesis
    proof (cases r)
      case None
      with unlocked Cons.prems show ?thesis by simp
    next
      case (Some r')
      let ?used = "usedOf u (no r')"
      let ?avail = "capacity r' - ?used"
      let ?t = "min ?avail remaining"
      show ?thesis
      proof (cases "?avail \<le> 0 \<or> guardSkipsFFD minChunk allRooms u ?used ?t remaining")
        case True
        with Cons.prems unlocked Some
        have "firstFitScan minChunk allRooms blocks mbi u remaining rest = Fit room used t"
          by (auto simp: Let_def split: if_splits)
        from Cons.IH [OF this] show ?thesis by simp
      next
        case False
        with unlocked Some
        have "firstFitScan minChunk allRooms blocks mbi u remaining (r # rest) = Fit r' ?used ?t"
          by (simp add: Let_def)
        with Cons.prems have "Fit r' ?used ?t = Fit room used t" by (simp only:)
        then have "room = r'" "used = ?used" "t = ?t" by blast+
        with False Some show ?thesis by simp
      qed
    qed
  qed
qed

lemma firstFitScan_NaN:
  "firstFitScan minChunk allRooms blocks mbi u remaining rs = FitNaN used \<Longrightarrow>
     None \<in> set rs \<and> used = usedOf u ''undefined''"
proof (induction rs)
  case Nil
  then show ?case by simp
next
  case (Cons r rest)
  show ?case
  proof (cases "blockLocked blocks mbi (roomKey r)")
    case True
    with Cons.prems
    have "firstFitScan minChunk allRooms blocks mbi u remaining rest = FitNaN used" by simp
    from Cons.IH [OF this] show ?thesis by simp
  next
    case unlocked: False
    show ?thesis
    proof (cases r)
      case None
      with unlocked Cons.prems show ?thesis by (simp add: roomKey_def)
    next
      case (Some r')
      let ?used = "usedOf u (no r')"
      let ?avail = "capacity r' - ?used"
      let ?t = "min ?avail remaining"
      show ?thesis
      proof (cases "?avail \<le> 0 \<or> guardSkipsFFD minChunk allRooms u ?used ?t remaining")
        case True
        with Cons.prems unlocked Some
        have "firstFitScan minChunk allRooms blocks mbi u remaining rest = FitNaN used"
          by (auto simp: Let_def split: if_splits)
        from Cons.IH [OF this] show ?thesis by simp
      next
        case False
        with unlocked Some
        have "firstFitScan minChunk allRooms blocks mbi u remaining (r # rest) = Fit r' ?used ?t"
          by (simp add: Let_def)
        with Cons.prems show ?thesis by simp
      qed
    qed
  qed
qed

lemma ffdWhile_stop:
  "\<not> remaining > 0 \<Longrightarrow>
     ffdWhile blocks minChunk allRooms s (remaining, u, res, mbi) = (Some remaining, u, res, mbi)"
  by (subst ffdWhile.simps) simp

lemma ffdWhile_best_break:
  "remaining > 0 \<Longrightarrow>
   fst (bestFitScan blocks mbi u remaining allRooms 0 (None, None)) = Some (idx, room) \<Longrightarrow>
   bestGuardBreaks minChunk allRooms u s (usedOf u (no room)) remaining \<Longrightarrow>
     ffdWhile blocks minChunk allRooms s (remaining, u, res, mbi) = (Some remaining, u, res, mbi)"
  by (subst ffdWhile.simps) simp

lemma ffdWhile_best:
  "remaining > 0 \<Longrightarrow>
   fst (bestFitScan blocks mbi u remaining allRooms 0 (None, None)) = Some (idx, room) \<Longrightarrow>
   \<not> bestGuardBreaks minChunk allRooms u s (usedOf u (no room)) remaining \<Longrightarrow>
     ffdWhile blocks minChunk allRooms s (remaining, u, res, mbi)
       = ffdWhile blocks minChunk allRooms s
           (0,
            AList.update (no room) (Some (usedOf u (no room) + remaining)) u,
            res @ [Rec (bestRecord s room (usedOf u (no room)) remaining)],
            unlock blocks (AList.update (no room) (Some (usedOf u (no room) + remaining)) u) mbi)"
  by (subst ffdWhile.simps) simp

lemma ffdWhile_none:
  "remaining > 0 \<Longrightarrow>
   fst (bestFitScan blocks mbi u remaining allRooms 0 (None, None)) = None \<Longrightarrow>
   firstFitScan minChunk allRooms blocks mbi u remaining allRooms = NoFit \<Longrightarrow>
     ffdWhile blocks minChunk allRooms s (remaining, u, res, mbi) = (Some remaining, u, res, mbi)"
  by (subst ffdWhile.simps) simp

lemma ffdWhile_first:
  "remaining > 0 \<Longrightarrow>
   fst (bestFitScan blocks mbi u remaining allRooms 0 (None, None)) = None \<Longrightarrow>
   firstFitScan minChunk allRooms blocks mbi u remaining allRooms = Fit room used toAllocate \<Longrightarrow>
     ffdWhile blocks minChunk allRooms s (remaining, u, res, mbi)
       = ffdWhile blocks minChunk allRooms s
           (remaining - toAllocate,
            AList.update (no room) (Some (used + toAllocate)) u,
            res @ [Rec (greedyRecord s room used toAllocate)],
            unlock blocks (AList.update (no room) (Some (used + toAllocate)) u) mbi)"
  by (subst ffdWhile.simps) simp

lemma ffdWhile_nan:
  "remaining > 0 \<Longrightarrow>
   fst (bestFitScan blocks mbi u remaining allRooms 0 (None, None)) = None \<Longrightarrow>
   firstFitScan minChunk allRooms blocks mbi u remaining allRooms = FitNaN used \<Longrightarrow>
     ffdWhile blocks minChunk allRooms s (remaining, u, res, mbi)
       = (None, AList.update ''undefined'' None u, res @ [NaNRec (branch s) (sect s) (used + 1)],
          unlock blocks (AList.update ''undefined'' None u) mbi)"
  by (subst ffdWhile.simps) simp

lemma bestRecord_sel [simp]:
  "\<not> isError (bestRecord s room used n)"
  "roomNo (bestRecord s room used n) = no room"
  "astudents (bestRecord s room used n) = n"
  "startSeat (bestRecord s room used n) = Some (used + 1)"
  "endSeat (bestRecord s room used n) = Some (used + n)"
  "abranch (bestRecord s room used n) = branch s"
  "asect (bestRecord s room used n) = sect s"
  by (simp_all add: bestRecord_def isError_def)

lemma refInv_snoc:
  "refInv allRooms res \<Longrightarrow> isError a \<or> roomNo a \<in> set (map no allRooms)
     \<Longrightarrow> refInv allRooms (res @ [a])"
  by (auto simp: refInv_def seatedRecords_def)

text \<open>One placement in a room that has a number, as both passes of the strategy make it.\<close>

lemma ffdInv_place:
  assumes inv: "ffdInv allRooms u res" and same: "sameCap (foundRooms allRooms)"
    and nu: "''undefined'' \<notin> set (map no (foundRooms allRooms))"
    and room: "Some room \<in> set allRooms"
    and a: "\<not> isError a" "roomNo a = no room" "astudents a = t"
      "startSeat a = Some (usedOf u (no room) + 1)" "endSeat a = Some (usedOf u (no room) + t)"
    and t: "0 < t" "usedOf u (no room) + t \<le> capacity room"
  shows "ffdInv allRooms (AList.update (no room) (Some (usedOf u (no room) + t)) u) (res @ [Rec a])"
proof -
  from inv have nk: "nanKeyed u" and ui: "usageInv (numUsage u) (properRecords res)"
    and ci: "capInv (foundRooms allRooms) (numUsage u)"
    and ri: "refInv (foundRooms allRooms) (properRecords res)"
    by (simp_all add: ffdInv_def)
  from room have fr: "room \<in> set (foundRooms allRooms)" by (simp add: foundRooms_set)
  then have "no room \<in> no ` set (foundRooms allRooms)" by (rule imageI)
  with nu have ne: "no room \<noteq> ''undefined''" by (metis set_map)
  have used: "usedOf u (no room) = usageOf (numUsage u) (no room)"
    using nk by (rule usedOf_numUsage)
  let ?u' = "AList.update (no room) (Some (usedOf u (no room) + t)) u"
  have nu': "numUsage ?u' = AList.update (no room) (usageOf (numUsage u) (no room) + t) (numUsage u)"
    using numUsage_update_Some [OF nk ne] used by simp
  have "usageInv (numUsage ?u') (properRecords (res @ [Rec a]))"
    unfolding nu' using usageInv_place [OF ui a(1) a(2)] a t used by simp
  moreover have "capInv (foundRooms allRooms) (numUsage ?u')"
    unfolding nu' using t(2) used by (intro capInv_place [OF ci same fr]) simp
  moreover have "refInv (foundRooms allRooms) (properRecords (res @ [Rec a]))"
    using ri fr a(2) by (simp add: refInv_snoc)
  moreover have "nanKeyed ?u'" using nk ne by (rule nanKeyed_update_Some)
  ultimately show ?thesis by (simp add: ffdInv_def)
qed

lemma ffdInv_nan:
  assumes "ffdInv allRooms u res"
  shows "ffdInv allRooms (AList.update ''undefined'' None u) (res @ [NaNRec b sc st])"
  using assms by (simp add: ffdInv_def numUsage_update_NaN nanKeyed_update_NaN)

lemma ffdWhile_inv:
  "ffdWhile blocks minChunk allRooms s (remaining, u, res, mbi) = (remaining', u', res', mbi')
   \<Longrightarrow> ffdInv allRooms u res \<Longrightarrow> sameCap (foundRooms allRooms)
   \<Longrightarrow> ''undefined'' \<notin> set (map no (foundRooms allRooms))
   \<Longrightarrow> ffdInv allRooms u' res'"
proof (induction blocks minChunk allRooms s "(remaining, u, res, mbi)"
    arbitrary: remaining u res mbi rule: ffdWhile.induct)
  case (1 blocks minChunk allRooms s remaining u res mbi)
  note run = "1.prems"(1) and inv = "1.prems"(2) and same = "1.prems"(3) and nu = "1.prems"(4)
  show ?case
  proof (cases "remaining > 0")
    case False
    from ffdWhile_stop [OF this] run inv show ?thesis by simp
  next
    case loop: True
    show ?thesis
    proof (cases "fst (bestFitScan blocks mbi u remaining allRooms 0 (None, None))")
      case (Some best)
      obtain idx room where best: "best = (idx, room)" by (cases best)
      with Some have bf:
        "fst (bestFitScan blocks mbi u remaining allRooms 0 (None, None)) = Some (idx, room)"
        by simp
      let ?used = "usedOf u (no room)"
      from bestFitScan_room [OF bf]
      have room: "Some room \<in> set allRooms" and fit: "remaining \<le> capacity room - ?used"
        by simp_all
      show ?thesis
      proof (cases "bestGuardBreaks minChunk allRooms u s ?used remaining")
        case True
        from ffdWhile_best_break [OF loop bf True] run inv show ?thesis by simp
      next
        case False
        let ?u' = "AList.update (no room) (Some (?used + remaining)) u"
        have inv': "ffdInv allRooms ?u' (res @ [Rec (bestRecord s room ?used remaining)])"
          using fit loop by (intro ffdInv_place [OF inv same nu room]) simp_all
        from ffdWhile_best [OF loop bf False] run
        have "ffdWhile blocks minChunk allRooms s
                (0, ?u', res @ [Rec (bestRecord s room ?used remaining)], unlock blocks ?u' mbi)
              = (remaining', u', res', mbi')" by simp
        from "1.hyps"(2) [OF loop bf refl False this inv' same nu] show ?thesis .
      qed
    next
      case None
      show ?thesis
      proof (cases "firstFitScan minChunk allRooms blocks mbi u remaining allRooms")
        case NoFit
        from ffdWhile_none [OF loop None NoFit] run inv show ?thesis by simp
      next
        case (Fit room used t)
        from firstFitScan_room [OF Fit] have room: "Some room \<in> set allRooms"
          and used: "used = usedOf u (no room)"
          and t: "t = min (capacity room - used) remaining" "0 < capacity room - used"
          by simp_all
        let ?u' = "AList.update (no room) (Some (used + t)) u"
        have inv': "ffdInv allRooms ?u' (res @ [Rec (greedyRecord s room used t)])"
          unfolding used using t loop used
          by (intro ffdInv_place [OF inv same nu room]) simp_all
        from ffdWhile_first [OF loop None Fit] run
        have "ffdWhile blocks minChunk allRooms s
                (remaining - t, ?u', res @ [Rec (greedyRecord s room used t)], unlock blocks ?u' mbi)
              = (remaining', u', res', mbi')" by simp
        from "1.hyps"(1) [OF loop None Fit this inv' same nu] show ?thesis .
      next
        case (FitNaN used)
        from ffdWhile_nan [OF loop None FitNaN] run ffdInv_nan [OF inv] show ?thesis by auto
      qed
    qed
  qed
qed

subsection \<open>Best-Fit/FFD: the loop over the sections and the block cursor\<close>

lemma allRec_simps [simp]:
  "allRec [] = True"
  "allRec (xs @ ys) = (allRec xs \<and> allRec ys)"
  "allRec [Rec a] = True"
  "allRec [NaNRec b sc st] = False"
  by (simp_all add: allRec_def)

lemma allRec_map: "allRec res \<Longrightarrow> map Rec (properRecords res) = res"
  by (induction res) (auto simp: allRec_def properRecords_def split: Pushed.splits)

lemma noNaN_simps [simp]:
  "noNaN [] = True"
  "noNaN ((k, v) # u) = (v \<noteq> None \<and> noNaN u)"
  by (simp_all add: noNaN_def)

lemma noNaN_map: "noNaN u \<Longrightarrow> map (\<lambda>(k, n). (k, Some n)) (numUsage u) = u"
proof (induction u)
  case Nil
  then show ?case by simp
next
  case (Cons p u)
  obtain k v where p: "p = (k, v)" by (cases p)
  with Cons.prems obtain n where "v = Some n" by auto
  with Cons p show ?case by simp
qed

lemma noNaN_update: "noNaN u \<Longrightarrow> noNaN (AList.update k (Some n) u)"
proof (induction u)
  case Nil
  then show ?case by simp
next
  case (Cons p u)
  obtain k' v where p: "p = (k', v)" by (cases p)
  with Cons show ?case by simp
qed

lemma firstFitScan_found:
  "None \<notin> set rs \<Longrightarrow> firstFitScan minChunk allRooms blocks mbi u remaining rs \<noteq> FitNaN used"
  using firstFitScan_NaN [of minChunk allRooms blocks mbi u remaining rs used] by blast

text \<open>
  When every room object has a number, the loop for one section ends with a number of
  students left, pushes no record of \<^verbatim>\<open>NaN\<close> students, and conserves the students.
\<close>

lemma ffdWhile_total:
  "ffdWhile blocks minChunk allRooms s (remaining, u, res, mbi) = (remaining', u', res', mbi')
   \<Longrightarrow> None \<notin> set allRooms \<Longrightarrow> 0 \<le> remaining
   \<Longrightarrow> (\<exists>left. remaining' = Some left \<and> 0 \<le> left
         \<and> sumStudents (recordsFor b sc (properRecords res'))
             + (if branch s = b \<and> sect s = sc then left else 0)
           = sumStudents (recordsFor b sc (properRecords res))
             + (if branch s = b \<and> sect s = sc then remaining else 0))
       \<and> (allRec res \<longrightarrow> allRec res') \<and> (noNaN u \<longrightarrow> noNaN u')"
proof (induction blocks minChunk allRooms s "(remaining, u, res, mbi)"
    arbitrary: remaining u res mbi rule: ffdWhile.induct)
  case (1 blocks minChunk allRooms s remaining u res mbi)
  note run = "1.prems"(1) and found = "1.prems"(2) and nonneg = "1.prems"(3)
  show ?case
  proof (cases "remaining > 0")
    case False
    from ffdWhile_stop [OF this] run
    have "remaining' = Some remaining" "u' = u" "res' = res" by simp_all
    with nonneg show ?thesis by simp
  next
    case loop: True
    show ?thesis
    proof (cases "fst (bestFitScan blocks mbi u remaining allRooms 0 (None, None))")
      case (Some best)
      obtain idx room where best: "best = (idx, room)" by (cases best)
      with Some have bf:
        "fst (bestFitScan blocks mbi u remaining allRooms 0 (None, None)) = Some (idx, room)"
        by simp
      let ?used = "usedOf u (no room)"
      show ?thesis
      proof (cases "bestGuardBreaks minChunk allRooms u s ?used remaining")
        case True
        from ffdWhile_best_break [OF loop bf True] run
        have "remaining' = Some remaining" "u' = u" "res' = res" by simp_all
        with nonneg show ?thesis by simp
      next
        case False
        let ?u' = "AList.update (no room) (Some (?used + remaining)) u"
        from ffdWhile_best [OF loop bf False] run
        have "ffdWhile blocks minChunk allRooms s
                (0, ?u', res @ [Rec (bestRecord s room ?used remaining)], unlock blocks ?u' mbi)
              = (remaining', u', res', mbi')" by simp
        from "1.hyps"(2) [OF loop bf refl False this found] show ?thesis
          by (auto simp: recordsFor_snoc noNaN_update split: if_splits)
      qed
    next
      case None
      show ?thesis
      proof (cases "firstFitScan minChunk allRooms blocks mbi u remaining allRooms")
        case NoFit
        from ffdWhile_none [OF loop None NoFit] run
        have "remaining' = Some remaining" "u' = u" "res' = res" by simp_all
        with nonneg show ?thesis by simp
      next
        case (Fit room used t)
        from firstFitScan_positive [OF Fit loop] have t: "0 < t" "t \<le> remaining" by simp_all
        let ?u' = "AList.update (no room) (Some (used + t)) u"
        from ffdWhile_first [OF loop None Fit] run
        have "ffdWhile blocks minChunk allRooms s
                (remaining - t, ?u', res @ [Rec (greedyRecord s room used t)], unlock blocks ?u' mbi)
              = (remaining', u', res', mbi')" by simp
        from "1.hyps"(1) [OF loop None Fit this found] t show ?thesis
          by (auto simp: recordsFor_snoc noNaN_update split: if_splits)
      next
        case (FitNaN used)
        with firstFitScan_found [OF found] show ?thesis by blast
      qed
    qed
  qed
qed

lemma unlock_bounds: "mbi \<le> unlock blocks u mbi \<and> unlock blocks u mbi \<le> Suc mbi"
  by (simp add: unlock_def)

lemma unlock_in_range: "mbi < length blocks \<Longrightarrow> unlock blocks u mbi < length blocks"
  by (auto simp: unlock_def)

lemma unlock_advances:
  "(unlock blocks u mbi = Suc mbi)
     = (list_all (\<lambda>rn. usedOf u rn > 0) (blocks ! mbi) \<and> Suc mbi < length blocks)"
  by (auto simp: unlock_def)

lemma ffdWhile_cursor:
  "ffdWhile blocks minChunk allRooms s (remaining, u, res, mbi) = (remaining', u', res', mbi')
   \<Longrightarrow> mbi \<le> mbi' \<and> (mbi < length blocks \<longrightarrow> mbi' < length blocks)"
proof (induction blocks minChunk allRooms s "(remaining, u, res, mbi)"
    arbitrary: remaining u res mbi rule: ffdWhile.induct)
  case (1 blocks minChunk allRooms s remaining u res mbi)
  note run = "1.prems"(1)
  show ?case
  proof (cases "remaining > 0")
    case False
    from ffdWhile_stop [OF this] run show ?thesis by simp
  next
    case loop: True
    show ?thesis
    proof (cases "fst (bestFitScan blocks mbi u remaining allRooms 0 (None, None))")
      case (Some best)
      obtain idx room where best: "best = (idx, room)" by (cases best)
      with Some have bf:
        "fst (bestFitScan blocks mbi u remaining allRooms 0 (None, None)) = Some (idx, room)"
        by simp
      let ?used = "usedOf u (no room)"
      show ?thesis
      proof (cases "bestGuardBreaks minChunk allRooms u s ?used remaining")
        case True
        from ffdWhile_best_break [OF loop bf True] run show ?thesis by simp
      next
        case False
        let ?u' = "AList.update (no room) (Some (?used + remaining)) u"
        from ffdWhile_best [OF loop bf False] run
        have "ffdWhile blocks minChunk allRooms s
                (0, ?u', res @ [Rec (bestRecord s room ?used remaining)], unlock blocks ?u' mbi)
              = (remaining', u', res', mbi')" by simp
        from "1.hyps"(2) [OF loop bf refl False this]
          unlock_bounds [of mbi blocks ?u'] unlock_in_range [of mbi blocks ?u']
        show ?thesis by simp
      qed
    next
      case None
      show ?thesis
      proof (cases "firstFitScan minChunk allRooms blocks mbi u remaining allRooms")
        case NoFit
        from ffdWhile_none [OF loop None NoFit] run show ?thesis by simp
      next
        case (Fit room used t)
        let ?u' = "AList.update (no room) (Some (used + t)) u"
        from ffdWhile_first [OF loop None Fit] run
        have "ffdWhile blocks minChunk allRooms s
                (remaining - t, ?u', res @ [Rec (greedyRecord s room used t)], unlock blocks ?u' mbi)
              = (remaining', u', res', mbi')" by simp
        from "1.hyps"(1) [OF loop None Fit this]
          unlock_bounds [of mbi blocks ?u'] unlock_in_range [of mbi blocks ?u']
        show ?thesis by simp
      next
        case (FitNaN used)
        let ?u' = "AList.update ''undefined'' None u"
        from ffdWhile_nan [OF loop None FitNaN] run
          unlock_bounds [of mbi blocks ?u'] unlock_in_range [of mbi blocks ?u']
        show ?thesis by auto
      qed
    qed
  qed
qed

text \<open>The state the loop over the sections goes on with after one section.\<close>

lemma ffdSections_Cons:
  assumes "ffdWhile blocks minChunk allRooms s (students s, u, res, mbi) = (left, u1, res1, mbi1)"
  shows "ffdSections blocks minChunk allRooms (s # rest) (u, res, mbi)
           = ffdSections blocks minChunk allRooms rest
               (u1,
                (case left of
                   Some n \<Rightarrow> if n > 0 then res1 @ [Rec (errorRecord s n)] else res1
                 | None \<Rightarrow> res1),
                mbi1)"
  using assms by simp

lemma ffdInv_error:
  assumes "ffdInv allRooms u res"
  shows "ffdInv allRooms u
           (case left of
              Some n \<Rightarrow> if n > 0 then res @ [Rec (errorRecord s n)] else res
            | None \<Rightarrow> res)"
proof (cases left)
  case None
  with assms show ?thesis by simp
next
  case (Some n)
  with assms show ?thesis by (simp add: ffdInv_def usageInv_error refInv_snoc)
qed

lemma ffdInv_empty: "ffdInv allRooms [] []"
  by (simp add: ffdInv_def usageInv_empty capInv_empty refInv_def seatedRecords_def)

lemma ffdSections_inv:
  assumes "ffdSections blocks minChunk allRooms secs (u, res, mbi) = (u', res', mbi')"
    and "ffdInv allRooms u res" "sameCap (foundRooms allRooms)"
    and "''undefined'' \<notin> set (map no (foundRooms allRooms))"
  shows "ffdInv allRooms u' res'"
  using assms
proof (induction secs arbitrary: u res mbi)
  case Nil
  then show ?case by simp
next
  case (Cons s rest)
  obtain left u1 res1 mbi1 where w:
    "ffdWhile blocks minChunk allRooms s (students s, u, res, mbi) = (left, u1, res1, mbi1)"
    by (cases "ffdWhile blocks minChunk allRooms s (students s, u, res, mbi)") auto
  from ffdWhile_inv [OF w Cons.prems(2) Cons.prems(3) Cons.prems(4)]
  have inv1: "ffdInv allRooms u1 res1" .
  let ?res2 = "case left of
                 Some n \<Rightarrow> if n > 0 then res1 @ [Rec (errorRecord s n)] else res1
               | None \<Rightarrow> res1"
  from ffdInv_error [OF inv1] have inv2: "ffdInv allRooms u1 ?res2" .
  from Cons.prems(1) ffdSections_Cons [OF w]
  have "ffdSections blocks minChunk allRooms rest (u1, ?res2, mbi1) = (u', res', mbi')"
    by simp
  from Cons.IH [OF this inv2 Cons.prems(3) Cons.prems(4)] show ?case .
qed

lemma ffdSections_conserve:
  assumes "ffdSections blocks minChunk allRooms secs (u, res, mbi) = (u', res', mbi')"
    and "secPos secs" "None \<notin> set allRooms"
  shows "sumStudents (recordsFor b sc (properRecords res'))
           = sumStudents (recordsFor b sc (properRecords res)) + demand b sc secs
         \<and> (allRec res \<longrightarrow> allRec res') \<and> (noNaN u \<longrightarrow> noNaN u')"
  using assms
proof (induction secs arbitrary: u res mbi)
  case Nil
  then show ?case by simp
next
  case (Cons s rest)
  obtain left u1 res1 mbi1 where w:
    "ffdWhile blocks minChunk allRooms s (students s, u, res, mbi) = (left, u1, res1, mbi1)"
    by (cases "ffdWhile blocks minChunk allRooms s (students s, u, res, mbi)") auto
  from Cons.prems(2) have pos: "0 \<le> students s" and rest: "secPos rest" by simp_all
  from ffdWhile_total [OF w Cons.prems(3) pos, of b sc] obtain n where
    left: "left = Some n" and n: "0 \<le> n"
    and tot: "sumStudents (recordsFor b sc (properRecords res1))
                + (if branch s = b \<and> sect s = sc then n else 0)
              = sumStudents (recordsFor b sc (properRecords res))
                + (if branch s = b \<and> sect s = sc then students s else 0)"
    and keep: "allRec res \<longrightarrow> allRec res1" "noNaN u \<longrightarrow> noNaN u1"
    by blast
  let ?res2 = "if n > 0 then res1 @ [Rec (errorRecord s n)] else res1"
  from Cons.prems(1) ffdSections_Cons [OF w] left
  have "ffdSections blocks minChunk allRooms rest (u1, ?res2, mbi1) = (u', res', mbi')"
    by simp
  from Cons.IH [OF this rest Cons.prems(3)]
  have "sumStudents (recordsFor b sc (properRecords res'))
          = sumStudents (recordsFor b sc (properRecords ?res2)) + demand b sc rest"
    and "allRec ?res2 \<longrightarrow> allRec res'" "noNaN u1 \<longrightarrow> noNaN u'" by simp_all
  moreover have "sumStudents (recordsFor b sc (properRecords ?res2))
       = sumStudents (recordsFor b sc (properRecords res1))
         + (if branch s = b \<and> sect s = sc then n else 0)"
    using n by (simp add: recordsFor_snoc)
  moreover have "allRec res1 \<longrightarrow> allRec ?res2" by simp
  ultimately show ?case using tot keep by simp
qed

lemma ffdSections_cursor:
  assumes "ffdSections blocks minChunk allRooms secs (u, res, mbi) = (u', res', mbi')"
  shows "mbi \<le> mbi' \<and> (mbi < length blocks \<longrightarrow> mbi' < length blocks)"
  using assms
proof (induction secs arbitrary: u res mbi)
  case Nil
  then show ?case by simp
next
  case (Cons s rest)
  obtain left u1 res1 mbi1 where w:
    "ffdWhile blocks minChunk allRooms s (students s, u, res, mbi) = (left, u1, res1, mbi1)"
    by (cases "ffdWhile blocks minChunk allRooms s (students s, u, res, mbi)") auto
  let ?res2 = "case left of
                 Some n \<Rightarrow> if n > 0 then res1 @ [Rec (errorRecord s n)] else res1
               | None \<Rightarrow> res1"
  from Cons.prems(1) ffdSections_Cons [OF w]
  have "ffdSections blocks minChunk allRooms rest (u1, ?res2, mbi1) = (u', res', mbi')"
    by simp
  from Cons.IH [OF this] ffdWhile_cursor [OF w] show ?case by auto
qed

lemma ffdSections_append:
  "ffdSections blocks minChunk allRooms (xs @ ys) st
     = ffdSections blocks minChunk allRooms ys (ffdSections blocks minChunk allRooms xs st)"
proof (induction xs arbitrary: st)
  case Nil
  then show ?case by simp
next
  case (Cons s xs)
  obtain u res mbi where st: "st = (u, res, mbi)" by (cases st) auto
  show ?case unfolding st by (simp add: Cons.IH split: prod.splits)
qed

subsection \<open>Best-Fit/FFD: the rooms looked up in the catalog\<close>

lemma find_Some_D: "find P xs = Some x \<Longrightarrow> x \<in> set xs \<and> P x"
  by (induction xs) (auto split: if_splits)

lemma find_None_D: "find P xs = None \<Longrightarrow> x \<in> set xs \<Longrightarrow> \<not> P x"
  by (induction xs) (auto split: if_splits)

lemma lookupRoom_Some:
  assumes "lookupRoom roomBlocks k = Some r'"
  shows "no r' = k \<and> (\<exists>r\<in>set (catalogRooms roomBlocks). no r = k \<and> capacity r = capacity r')"
proof -
  from assms obtain blk where blk: "find (\<lambda>b. list_ex (\<lambda>r. no r = k) (rooms b)) roomBlocks = Some blk"
    by (cases "find (\<lambda>b. list_ex (\<lambda>r. no r = k) (rooms b)) roomBlocks")
       (simp_all add: lookupRoom_def)
  with assms obtain r where r: "find (\<lambda>r. no r = k) (rooms blk) = Some r"
    and r': "r' = withBlock (name blk) r"
    by (cases "find (\<lambda>r. no r = k) (rooms blk)") (simp_all add: lookupRoom_def)
  from find_Some_D [OF blk] have "blk \<in> set roomBlocks" by simp
  moreover from find_Some_D [OF r] have "r \<in> set (rooms blk)" "no r = k" by simp_all
  ultimately have "r \<in> set (catalogRooms roomBlocks)" by (auto simp: catalogRooms_def)
  with r' \<open>no r = k\<close> show ?thesis by (auto simp: withBlock_def)
qed

lemma lookupRoom_found:
  assumes "k \<in> set (map no (catalogRooms roomBlocks))"
  shows "lookupRoom roomBlocks k \<noteq> None"
proof -
  from assms obtain blk r where blk: "blk \<in> set roomBlocks" and r: "r \<in> set (rooms blk)" "no r = k"
    by (auto simp: catalogRooms_def)
  then have ex: "list_ex (\<lambda>r. no r = k) (rooms blk)" by (auto simp: list_ex_iff)
  obtain blk' where f: "find (\<lambda>b. list_ex (\<lambda>r. no r = k) (rooms b)) roomBlocks = Some blk'"
    using find_None_D [of "\<lambda>b. list_ex (\<lambda>r. no r = k) (rooms b)" roomBlocks blk] blk ex
    by (cases "find (\<lambda>b. list_ex (\<lambda>r. no r = k) (rooms b)) roomBlocks") auto
  from find_Some_D [OF f] obtain r2 where "r2 \<in> set (rooms blk')" "no r2 = k"
    by (auto simp: list_ex_iff)
  then obtain r3 where "find (\<lambda>r. no r = k) (rooms blk') = Some r3"
    using find_None_D [of "\<lambda>r. no r = k" "rooms blk'" r2]
    by (cases "find (\<lambda>r. no r = k) (rooms blk')") auto
  with f show ?thesis by (simp add: lookupRoom_def)
qed

lemma orderedRooms_found:
  "r \<in> set (foundRooms (orderedRooms blocks roomBlocks))
     \<Longrightarrow> \<exists>k\<in>set (concat blocks). lookupRoom roomBlocks k = Some r"
  unfolding foundRooms_set orderedRooms_def by (metis (no_types, lifting) imageE set_map)

lemma orderedRooms_total:
  assumes "catalogCovers blocks roomBlocks"
  shows "None \<notin> set (orderedRooms blocks roomBlocks)"
proof
  assume "None \<in> set (orderedRooms blocks roomBlocks)"
  then obtain k where k: "k \<in> set (concat blocks)" "lookupRoom roomBlocks k = None"
    unfolding orderedRooms_def by (metis (no_types, lifting) imageE set_map)
  with assms have "k \<in> set (map no (catalogRooms roomBlocks))"
    unfolding catalogCovers_def list_all_iff by blast
  from lookupRoom_found [OF this] k show False by simp
qed

lemma orderedRooms_sameCap: "sameCap (foundRooms (orderedRooms blocks roomBlocks))"
  unfolding sameCap_def
proof (intro ballI impI)
  fix r r'
  assume r: "r \<in> set (foundRooms (orderedRooms blocks roomBlocks))"
    and r': "r' \<in> set (foundRooms (orderedRooms blocks roomBlocks))" and eq: "no r = no r'"
  from orderedRooms_found [OF r] obtain k where k: "lookupRoom roomBlocks k = Some r" by blast
  from orderedRooms_found [OF r'] obtain k' where k': "lookupRoom roomBlocks k' = Some r'" by blast
  from lookupRoom_Some [OF k] lookupRoom_Some [OF k'] eq have "k = k'" by simp
  with k k' have "r = r'" by simp
  then show "capacity r = capacity r'" by simp
qed

lemma orderedRooms_named:
  assumes "''undefined'' \<notin> set (concat blocks)"
  shows "''undefined'' \<notin> set (map no (foundRooms (orderedRooms blocks roomBlocks)))"
proof
  assume "''undefined'' \<in> set (map no (foundRooms (orderedRooms blocks roomBlocks)))"
  then have "''undefined'' \<in> no ` set (foundRooms (orderedRooms blocks roomBlocks))"
    by (simp only: set_map)
  then obtain r where n: "''undefined'' = no r"
    and r: "r \<in> set (foundRooms (orderedRooms blocks roomBlocks))" by (rule imageE)
  from orderedRooms_found [OF r] obtain k where
    k: "k \<in> set (concat blocks)" "lookupRoom roomBlocks k = Some r" by blast
  from lookupRoom_Some [OF k(2)] n k(1) assms show False by simp
qed

lemma unique_room:
  assumes "uniqueRoomIds roomBlocks" "r \<in> set (catalogRooms roomBlocks)"
    "r' \<in> set (catalogRooms roomBlocks)" "no r = no r'"
  shows "r = r'"
  using assms unfolding uniqueRoomIds_def by (meson distinct_map inj_onD)

lemma orderedRooms_catalog:
  assumes uniq: "uniqueRoomIds roomBlocks"
    and r: "r \<in> set (catalogRooms roomBlocks)"
    and inl: "no r \<in> set (map no (foundRooms (orderedRooms blocks roomBlocks)))"
  shows "\<exists>r'\<in>set (foundRooms (orderedRooms blocks roomBlocks)).
           no r' = no r \<and> capacity r' = capacity r"
proof -
  from inl have "no r \<in> no ` set (foundRooms (orderedRooms blocks roomBlocks))"
    by (simp only: set_map)
  then obtain r' where "no r = no r'"
    and "r' \<in> set (foundRooms (orderedRooms blocks roomBlocks))" by (rule imageE)
  then have r': "r' \<in> set (foundRooms (orderedRooms blocks roomBlocks))" "no r' = no r"
    by simp_all
  from orderedRooms_found [OF r'(1)] obtain k where k: "lookupRoom roomBlocks k = Some r'" by blast
  from lookupRoom_Some [OF k] obtain r2 where
    r2: "r2 \<in> set (catalogRooms roomBlocks)" "no r2 = k" "capacity r2 = capacity r'" "no r' = k"
    by blast
  with r' have "no r2 = no r" by simp
  from unique_room [OF uniq r2(1) r this] r2 have "capacity r' = capacity r" by simp
  with r' show ?thesis by blast
qed

lemma refInv_roomRecords:
  assumes "refInv allRooms res" "k \<notin> set (map no allRooms)"
  shows "roomRecords k res = []"
proof -
  have "\<And>a. a \<in> set res \<Longrightarrow> \<not> (\<not> isError a \<and> roomNo a = k)"
  proof
    fix a assume "a \<in> set res" "\<not> isError a \<and> roomNo a = k"
    then have "k \<in> set (map roomNo (seatedRecords res))"
      by (auto simp: seatedRecords_def)
    with assms show False by (auto simp: refInv_def)
  qed
  then show ?thesis unfolding roomRecords_def by (simp add: filter_empty_conv)
qed

text \<open>A run of the strategy on a block order that lists no room \<^verbatim>\<open>"undefined"\<close>.\<close>

lemma ffd_run:
  assumes run: "bestFitFFD blocks roomBlocks sections minChunk = (res, u)"
    and named: "''undefined'' \<notin> set (concat blocks)"
  shows "ffdInv (orderedRooms blocks roomBlocks) u res"
    and "uniqueRoomIds roomBlocks \<Longrightarrow> r \<in> set (catalogRooms roomBlocks)
           \<Longrightarrow> sumStudents (roomRecords (no r) (properRecords res)) \<le> max 0 (capacity r)"
    and "catalogCovers blocks roomBlocks
           \<Longrightarrow> allRec res \<and> noNaN u
               \<and> sumStudents (recordsFor b sc (properRecords res))
                   = demand b sc (filter validSection sections)"
proof -
  let ?rooms = "orderedRooms blocks roomBlocks"
  obtain u' res' mbi' where loop:
    "ffdSections blocks minChunk ?rooms (sortedSections sections) ([], [], 0) = (u', res', mbi')"
    by (cases "ffdSections blocks minChunk ?rooms (sortedSections sections) ([], [], 0)") auto
  with run have eq: "res' = res" "u' = u" by (simp_all add: bestFitFFD_def)
  from ffdSections_inv [OF loop ffdInv_empty orderedRooms_sameCap orderedRooms_named [OF named]]
  show inv: "ffdInv ?rooms u res" by (simp add: eq)
  then have ui: "usageInv (numUsage u) (properRecords res)"
    and cap: "capInv (foundRooms ?rooms) (numUsage u)"
    and ref: "refInv (foundRooms ?rooms) (properRecords res)"
    by (simp_all add: ffdInv_def)
  show "sumStudents (roomRecords (no r) (properRecords res)) \<le> max 0 (capacity r)"
    if uniq: "uniqueRoomIds roomBlocks" and r: "r \<in> set (catalogRooms roomBlocks)"
  proof (cases "no r \<in> set (map no (foundRooms ?rooms))")
    case True
    from orderedRooms_catalog [OF uniq r True]
    obtain r' where r': "r' \<in> set (foundRooms ?rooms)" "no r' = no r" "capacity r' = capacity r"
      by blast
    from capInvD [OF cap r'(1)] r' usageInv_usageOf [OF ui, of "no r"] show ?thesis by simp
  next
    case False
    from refInv_roomRecords [OF ref False] show ?thesis by simp
  qed
  show "allRec res \<and> noNaN u
        \<and> sumStudents (recordsFor b sc (properRecords res))
            = demand b sc (filter validSection sections)"
    if "catalogCovers blocks roomBlocks"
    using ffdSections_conserve [OF loop secPos_sortedSections orderedRooms_total [OF that], of b sc]
    by (simp add: eq recordsFor_def sortedSections_def demand_sort_key)
qed

subsection \<open>The finished runs\<close>

lemma listedCatalog_covers: "catalogCovers orderedRoomBlocks listedCatalog"
  by code_simp

lemma listed_named: "''undefined'' \<notin> set (concat orderedRoomBlocks)"
  by code_simp

lemma twoRooms_unique: "uniqueRoomIds twoRooms"
  by code_simp

lemma closedCatalog_unique: "uniqueRoomIds closedCatalog"
  by code_simp

text \<open>What the invariants give for a finished run.\<close>

lemma usageInv_contiguous: "usageInv u res \<Longrightarrow> contiguous res"
  by (simp add: usageInv_def contiguous_def)

lemma usageInv_consistent:
  assumes "usageInv u res"
  shows "usageConsistent (res, u)"
proof -
  have "roomRecords k res = [] \<or> 0 < sumStudents (roomRecords k res)" for k
    using assms chained_sum_pos [of 0 "roomRecords k res"] by (auto simp: usageInv_def)
  with assms show ?thesis by (simp add: usageConsistent_def usageInv_def)
qed

lemma capacitySafeI:
  "(\<And>r. r \<in> set (catalogRooms roomBlocks)
      \<Longrightarrow> sumStudents (roomRecords (no r) res) \<le> max 0 (capacity r))
   \<Longrightarrow> capacitySafe roomBlocks res"
  by (simp add: capacitySafe_def list_all_iff)

lemma capacitySafeD:
  "capacitySafe roomBlocks res \<Longrightarrow> r \<in> set (catalogRooms roomBlocks)
     \<Longrightarrow> sumStudents (roomRecords (no r) res) \<le> max 0 (capacity r)"
  by (simp add: capacitySafe_def list_all_iff)

lemma capInv_capacitySafe:
  assumes inv: "usageInv u res" and cap: "capInv (sortedRooms roomBlocks) u"
  shows "capacitySafe roomBlocks res"
proof (rule capacitySafeI)
  fix r assume "r \<in> set (catalogRooms roomBlocks)"
  from catalog_in_sortedRooms [OF this]
  obtain r' where r': "r' \<in> set (sortedRooms roomBlocks)" "no r' = no r" "capacity r' = capacity r"
    by blast
  from capInvD [OF cap r'(1)] r' usageInv_usageOf [OF inv, of "no r"]
  show "sumStudents (roomRecords (no r) res) \<le> max 0 (capacity r)" by simp
qed

lemma unusedRoomI:
  assumes inv: "usageInv u res" and safe: "capacitySafe roomBlocks res"
    and r: "r \<in> set (catalogRooms roomBlocks)" and cap: "capacity r \<le> 0"
  shows "unusedRoom (no r) (res, u)"
proof -
  from capacitySafeD [OF safe r] cap have "sumStudents (roomRecords (no r) res) \<le> 0" by simp
  moreover from inv have "chained 0 (roomRecords (no r) res)" by (simp add: usageInv_def)
  ultimately have none: "roomRecords (no r) res = []"
    using chained_sum_pos [of 0 "roomRecords (no r) res"] by fastforce
  with inv have "map_of u (no r) = None" by (simp add: usageInv_def)
  moreover have "no r \<notin> set (map roomNo res)" if ne: "no r \<noteq> ''NO SPACE''"
  proof
    assume "no r \<in> set (map roomNo res)"
    then obtain a where a: "a \<in> set res" "roomNo a = no r" by auto
    show False
    proof (cases "isError a")
      case True
      with usageInv_tagged [OF inv] a ne show False
        by (simp add: errorsTagged_def list_all_iff)
    next
      case False
      with a have "a \<in> set (roomRecords (no r) res)" by (simp add: roomRecords_def)
      with none show False by simp
    qed
  qed
  ultimately show ?thesis using none by (auto simp: unusedRoom_def)
qed

lemma unusedRoomFFD_I:
  assumes inv: "ffdInv allRooms u res" and safe: "capacitySafe roomBlocks (properRecords res)"
    and r: "r \<in> set (catalogRooms roomBlocks)" and cap: "capacity r \<le> 0"
  shows "unusedRoomFFD (no r) (res, u)"
proof -
  from inv have nk: "nanKeyed u" and ui: "usageInv (numUsage u) (properRecords res)"
    by (simp_all add: ffdInv_def)
  from unusedRoomI [OF ui safe r cap]
  have un: "roomRecords (no r) (properRecords res) = []" "map_of (numUsage u) (no r) = None"
    "no r = ''NO SPACE'' \<or> no r \<notin> set (map roomNo (properRecords res))"
    by (simp_all add: unusedRoom_def)
  have "map_of u (no r) = None" if "no r \<noteq> ''undefined''"
    using map_of_numUsage [OF nk that] un(2) by simp
  with un show ?thesis by (auto simp: unusedRoomFFD_def)
qed

lemma simple_greedy_master:
  "conserved sections (fst (allocateSimpleGreedy roomBlocks sections minChunk))"
  "uniqueRoomIds roomBlocks \<Longrightarrow>
     usageInv (snd (allocateSimpleGreedy roomBlocks sections minChunk))
              (fst (allocateSimpleGreedy roomBlocks sections minChunk))
     \<and> capacitySafe roomBlocks (fst (allocateSimpleGreedy roomBlocks sections minChunk))"
proof -
  obtain u res where run:
    "greedySections minChunk (sortedRooms roomBlocks) (sortedSections sections) ([], []) = (u, res)"
    by (cases "greedySections minChunk (sortedRooms roomBlocks) (sortedSections sections) ([], [])")
       auto
  then have eq: "allocateSimpleGreedy roomBlocks sections minChunk = (res, u)"
    by (simp add: allocateSimpleGreedy_def)
  show "conserved sections (fst (allocateSimpleGreedy roomBlocks sections minChunk))"
    unfolding eq conserved_def using greedy_run(1) [OF run] by simp
  show "usageInv (snd (allocateSimpleGreedy roomBlocks sections minChunk))
              (fst (allocateSimpleGreedy roomBlocks sections minChunk))
     \<and> capacitySafe roomBlocks (fst (allocateSimpleGreedy roomBlocks sections minChunk))"
    if "uniqueRoomIds roomBlocks"
    unfolding eq using greedy_run(2) [OF run that] capInv_capacitySafe [of u res roomBlocks]
    by simp
qed

lemma min_chunk_same:
  "allocateGreedyMinChunk roomBlocks sections minChunk
     = allocateSimpleGreedy roomBlocks sections minChunk"
  by (simp add: allocateGreedyMinChunk_def allocateSimpleGreedy_def)

lemma lookahead_master:
  "conserved sections (fst (allocateGreedyLookahead roomBlocks sections minChunk))"
  "uniqueRoomIds roomBlocks \<Longrightarrow>
     usageInv (snd (allocateGreedyLookahead roomBlocks sections minChunk))
              (fst (allocateGreedyLookahead roomBlocks sections minChunk))
     \<and> capacitySafe roomBlocks (fst (allocateGreedyLookahead roomBlocks sections minChunk))"
proof -
  obtain res u where eq: "allocateGreedyLookahead roomBlocks sections minChunk = (res, u)"
    by (cases "allocateGreedyLookahead roomBlocks sections minChunk") auto
  show "conserved sections (fst (allocateGreedyLookahead roomBlocks sections minChunk))"
    unfolding eq conserved_def using lookahead_run(1) [OF eq] by simp
  show "usageInv (snd (allocateGreedyLookahead roomBlocks sections minChunk))
              (fst (allocateGreedyLookahead roomBlocks sections minChunk))
     \<and> capacitySafe roomBlocks (fst (allocateGreedyLookahead roomBlocks sections minChunk))"
    if "uniqueRoomIds roomBlocks"
    unfolding eq using lookahead_run(2) [OF eq that] capInv_capacitySafe [of u res roomBlocks]
    by simp
qed

text \<open>
  Best-Fit/FFD on any catalog: the invariant of its loops holds of what it returns, and
  with unique room numbers no room of the catalog is filled beyond its capacity.
\<close>

lemma ffd_master:
  "ffdInv (orderedRooms orderedRoomBlocks roomBlocks)
     (snd (allocateBestFitFFD roomBlocks sections minChunk))
     (fst (allocateBestFitFFD roomBlocks sections minChunk))"
  "uniqueRoomIds roomBlocks \<Longrightarrow>
     capacitySafe roomBlocks (properRecords (fst (allocateBestFitFFD roomBlocks sections minChunk)))"
proof -
  obtain res u where run: "bestFitFFD orderedRoomBlocks roomBlocks sections minChunk = (res, u)"
    by (cases "bestFitFFD orderedRoomBlocks roomBlocks sections minChunk") auto
  then have eq: "allocateBestFitFFD roomBlocks sections minChunk = (res, u)"
    by (simp add: allocateBestFitFFD_def)
  show "ffdInv (orderedRooms orderedRoomBlocks roomBlocks)
     (snd (allocateBestFitFFD roomBlocks sections minChunk))
     (fst (allocateBestFitFFD roomBlocks sections minChunk))"
    unfolding eq using ffd_run(1) [OF run listed_named] by simp
  show "capacitySafe roomBlocks
          (properRecords (fst (allocateBestFitFFD roomBlocks sections minChunk)))"
    if "uniqueRoomIds roomBlocks"
    unfolding eq using ffd_run(2) [OF run listed_named that] by (simp add: capacitySafeI)
qed

text \<open>
  Best-Fit/FFD on a catalog that has every room of the written-down order: no record of
  \<^verbatim>\<open>NaN\<close> students, no \<^verbatim>\<open>NaN\<close> in the usage map, and the students are conserved.
\<close>

lemma ffd_covered:
  assumes "catalogCovers orderedRoomBlocks roomBlocks"
  shows "\<exists>res u. allocateBestFitFFD roomBlocks sections minChunk = plainRun (res, u)
           \<and> conserved sections res \<and> usageInv u res
           \<and> (uniqueRoomIds roomBlocks \<longrightarrow> capacitySafe roomBlocks res)"
proof -
  obtain res u where run: "bestFitFFD orderedRoomBlocks roomBlocks sections minChunk = (res, u)"
    by (cases "bestFitFFD orderedRoomBlocks roomBlocks sections minChunk") auto
  then have eq: "allocateBestFitFFD roomBlocks sections minChunk = (res, u)"
    by (simp add: allocateBestFitFFD_def)
  from ffd_run(3) [OF run listed_named assms] have plain: "allRec res" "noNaN u"
    and cons: "\<And>b sc. sumStudents (recordsFor b sc (properRecords res))
                 = demand b sc (filter validSection sections)"
    by simp_all
  from plain have "allocateBestFitFFD roomBlocks sections minChunk
                     = plainRun (properRecords res, numUsage u)"
    by (simp add: eq plainRun_def allRec_map noNaN_map)
  moreover from cons have "conserved sections (properRecords res)" by (simp add: conserved_def)
  moreover from ffd_master(1) [of roomBlocks sections minChunk]
  have "usageInv (numUsage u) (properRecords res)" by (simp add: eq ffdInv_def)
  moreover from ffd_master(2) [of roomBlocks sections minChunk]
  have "uniqueRoomIds roomBlocks \<longrightarrow> capacitySafe roomBlocks (properRecords res)"
    by (simp add: eq)
  ultimately show ?thesis by blast
qed

section \<open>The claims\<close>

subsection \<open>Properties of every strategy\<close>

lemma demand_single:
  "filter (\<lambda>x. branch x = b \<and> sect x = sc) xs = [g] \<Longrightarrow> demand b sc xs = students g"
  by (simp add: demand_def)

text \<open>
  Claim C1 (conservation), as the code has it. The records carry the identity (branch,
  section) of their group and nothing else, so what is conserved is the demand of an
  identity: for each strategy and every identity, the students of all records of that
  identity (error records included) add up to the sizes of all valid input groups of that
  identity. For a valid group whose identity no other valid group shares, this is the
  size of the group. For Best-Fit/FFD this is stated of the catalogs that have every room
  of its written-down order, on which it pushes no record of \<^verbatim>\<open>NaN\<close> students.
\<close>

theorem conservation_by_identity:
  "conserved sections (fst (allocateSimpleGreedy roomBlocks sections minChunk))
   \<and> conserved sections (fst (allocateGreedyMinChunk roomBlocks sections minChunk))
   \<and> conserved sections (fst (allocateGreedyLookahead roomBlocks sections minChunk))
   \<and> (catalogCovers orderedRoomBlocks roomBlocks \<longrightarrow>
        (\<exists>res u. allocateBestFitFFD roomBlocks sections minChunk = plainRun (res, u)
                 \<and> conserved sections res))
   \<and> (filter (\<lambda>x. branch x = branch g \<and> sect x = sect g) (filter validSection sections) = [g]
        \<longrightarrow> demand (branch g) (sect g) (filter validSection sections) = students g)"
proof (intro conjI impI)
  show "conserved sections (fst (allocateSimpleGreedy roomBlocks sections minChunk))"
    by (rule simple_greedy_master(1))
  then show "conserved sections (fst (allocateGreedyMinChunk roomBlocks sections minChunk))"
    by (simp only: min_chunk_same)
  show "conserved sections (fst (allocateGreedyLookahead roomBlocks sections minChunk))"
    by (rule lookahead_master(1))
  show "\<exists>res u. allocateBestFitFFD roomBlocks sections minChunk = plainRun (res, u)
                 \<and> conserved sections res"
    if "catalogCovers orderedRoomBlocks roomBlocks"
    using ffd_covered [OF that, of sections minChunk] by blast
  show "demand (branch g) (sect g) (filter validSection sections) = students g"
    if "filter (\<lambda>x. branch x = branch g \<and> sect x = sect g) (filter validSection sections) = [g]"
    using that by (rule demand_single)
qed

theorem conservation_by_identity_witness:
  "catalogCovers orderedRoomBlocks listedCatalog
   \<and> filter (\<lambda>x. branch x = ''Y'' \<and> sect x = ''1'') (filter validSection scenarioSections)
       = [\<lparr>sid = 2, branch = ''Y'', sect = ''1'', students = 60\<rparr>]
   \<and> conserved scenarioSections (fst (allocateSimpleGreedy listedCatalog scenarioSections 10))
   \<and> (\<exists>res u. allocateBestFitFFD listedCatalog scenarioSections 10 = plainRun (res, u)
               \<and> conserved scenarioSections res)
   \<and> demand ''Y'' ''1'' (filter validSection scenarioSections) = 60"
proof -
  have h1: "catalogCovers orderedRoomBlocks listedCatalog" by (rule listedCatalog_covers)
  have h2: "filter (\<lambda>x. branch x = ''Y'' \<and> sect x = ''1'') (filter validSection scenarioSections)
       = [\<lparr>sid = 2, branch = ''Y'', sect = ''1'', students = 60\<rparr>]"
    by (simp add: scenarioSections_def validSection_def)
  from conservation_by_identity
    [of scenarioSections listedCatalog 10 "\<lparr>sid = 2, branch = ''Y'', sect = ''1'', students = 60\<rparr>"]
    h1 h2
  show ?thesis by simp
qed

text \<open>
  Claim C1 as it is worded fails when two valid groups have the same identity: both
  groups of \<open>twinSections\<close> are valid, of sizes 5 and 7, and the records of their
  identity hold 12 students, which is the size of neither.
\<close>

theorem conservation_counterexample:
  "map students (filter validSection twinSections) = [5, 7]
   \<and> sumStudents (recordsFor ''CSE'' ''1''
        (fst (allocateSimpleGreedy scenarioBlocks twinSections 10))) = 12"
  by (simp add: scenarioBlocks_def twinSections_def eval_defs)

text \<open>
  The runs of the four strategies on the two rooms APJ-1 and APJ-2 of 40 seats: the group
  X (30) goes to APJ-1, seats 1-30, and the group Y (10) follows it there on seats 31-40,
  which fills the room.
\<close>

lemma twoRooms_greedy:
  "allocateSimpleGreedy twoRooms chainSections 10 =
     ([seatRecord ''X'' ''1'' ''APJ-1'' 30 1 30 (Some False) ''APJ Block'',
       seatRecord ''Y'' ''1'' ''APJ-1'' 10 31 40 (Some False) ''APJ Block''],
      [(''APJ-1'', 40)])"
  by (simp add: twoRooms_def chainSections_def eval_defs)

lemma twoRooms_min_chunk:
  "allocateGreedyMinChunk twoRooms chainSections 10 =
     ([seatRecord ''X'' ''1'' ''APJ-1'' 30 1 30 (Some False) ''APJ Block'',
       seatRecord ''Y'' ''1'' ''APJ-1'' 10 31 40 (Some False) ''APJ Block''],
      [(''APJ-1'', 40)])"
  by (simp add: twoRooms_def chainSections_def eval_defs)

lemma twoRooms_lookahead:
  "allocateGreedyLookahead twoRooms chainSections 10 =
     ([seatRecord ''X'' ''1'' ''APJ-1'' 30 1 30 None ''APJ Block'',
       seatRecord ''Y'' ''1'' ''APJ-1'' 10 31 40 None ''APJ Block''],
      [(''APJ-1'', 40)])"
  by code_simp

lemma twoRooms_ffd:
  "allocateBestFitFFD twoRooms chainSections 10 =
     ([Rec (seatRecord ''X'' ''1'' ''APJ-1'' 30 1 30 None ''APJ Block''),
       Rec (seatRecord ''Y'' ''1'' ''APJ-1'' 10 31 40 None ''APJ Block'')],
      [(''APJ-1'', Some 40)])"
  by code_simp

text \<open>
  The runs on the same two rooms with APJ-1 closed and a group X of 100 students: every
  strategy seats 40 students in APJ-2 and comes to the closed room with 60 students
  left. The first three strategies end with an error record for them. Best-Fit/FFD goes
  on to the third room of its order, APJ-3, which this catalog does not have, and pushes
  a record of \<^verbatim>\<open>NaN\<close> students for it.
\<close>

lemma closedCatalog_greedy:
  "allocateSimpleGreedy closedCatalog crowdSections 10 =
     ([seatRecord ''X'' ''1'' ''APJ-2'' 40 1 40 (Some True) ''APJ Block'',
       errorRecord \<lparr>sid = 1, branch = ''X'', sect = ''1'', students = 100\<rparr> 60],
      [(''APJ-2'', 40)])"
  by (simp add: closedCatalog_def closedRoom_def crowdSections_def eval_defs)

lemma closedCatalog_lookahead:
  "allocateGreedyLookahead closedCatalog crowdSections 10 =
     ([seatRecord ''X'' ''1'' ''APJ-2'' 40 1 40 (Some True) ''APJ Block'',
       errorRecord \<lparr>sid = 1, branch = ''X'', sect = ''1'', students = 100\<rparr> 60],
      [(''APJ-2'', 40)])"
  by code_simp

lemma closedCatalog_ffd:
  "allocateBestFitFFD closedCatalog crowdSections 10 =
     ([Rec (seatRecord ''X'' ''1'' ''APJ-2'' 40 1 40 (Some True) ''APJ Block''),
       NaNRec ''X'' ''1'' 1],
      [(''APJ-2'', Some 40), (''undefined'', None)])"
  by code_simp

text \<open>
  Claim C2 (capacity safety). With the room numbers of the catalog unique, as the data
  model has them, the non-error records of every room of the catalog hold at most
  \<open>max 0 capacity\<close> students: at most the capacity of a room that has one, and none
  at all in a room of negative capacity. This holds of Best-Fit/FFD on every catalog:
  the records it pushes for a room object without a number have \<^verbatim>\<open>roomNo: undefined\<close>
  and so are records of no room; \<open>properRecords\<close> are all its other records.
\<close>

theorem capacity_safety:
  assumes "uniqueRoomIds roomBlocks"
  shows "capacitySafe roomBlocks (fst (allocateSimpleGreedy roomBlocks sections minChunk))
   \<and> capacitySafe roomBlocks (fst (allocateGreedyMinChunk roomBlocks sections minChunk))
   \<and> capacitySafe roomBlocks (fst (allocateGreedyLookahead roomBlocks sections minChunk))
   \<and> capacitySafe roomBlocks
        (properRecords (fst (allocateBestFitFFD roomBlocks sections minChunk)))"
proof (intro conjI)
  show "capacitySafe roomBlocks (fst (allocateSimpleGreedy roomBlocks sections minChunk))"
    using simple_greedy_master(2) [OF assms] by simp
  then show "capacitySafe roomBlocks (fst (allocateGreedyMinChunk roomBlocks sections minChunk))"
    by (simp only: min_chunk_same)
  show "capacitySafe roomBlocks (fst (allocateGreedyLookahead roomBlocks sections minChunk))"
    using lookahead_master(2) [OF assms] by simp
  show "capacitySafe roomBlocks
          (properRecords (fst (allocateBestFitFFD roomBlocks sections minChunk)))"
    using assms by (rule ffd_master(2))
qed

theorem capacity_safety_witness:
  "uniqueRoomIds twoRooms
   \<and> capacitySafe twoRooms (fst (allocateSimpleGreedy twoRooms chainSections 10))
   \<and> capacitySafe twoRooms (fst (allocateGreedyMinChunk twoRooms chainSections 10))
   \<and> capacitySafe twoRooms (fst (allocateGreedyLookahead twoRooms chainSections 10))
   \<and> capacitySafe twoRooms (properRecords (fst (allocateBestFitFFD twoRooms chainSections 10)))
   \<and> map astudents (roomRecords ''APJ-1'' (fst (allocateSimpleGreedy twoRooms chainSections 10)))
       = [30, 10]
   \<and> map astudents (roomRecords ''APJ-1'' (fst (allocateGreedyLookahead twoRooms chainSections 10)))
       = [30, 10]
   \<and> map astudents (roomRecords ''APJ-1''
        (properRecords (fst (allocateBestFitFFD twoRooms chainSections 10))))
       = [30, 10]"
proof -
  have h1: "uniqueRoomIds twoRooms" by (rule twoRooms_unique)
  have e1: "map astudents (roomRecords ''APJ-1''
              (fst (allocateSimpleGreedy twoRooms chainSections 10))) = [30, 10]"
    by (simp add: twoRooms_greedy roomRecords_def seatRecord_def isError_def)
  have e2: "map astudents (roomRecords ''APJ-1''
              (fst (allocateGreedyLookahead twoRooms chainSections 10))) = [30, 10]"
    by (simp add: twoRooms_lookahead roomRecords_def seatRecord_def isError_def)
  have e3: "map astudents (roomRecords ''APJ-1''
              (properRecords (fst (allocateBestFitFFD twoRooms chainSections 10)))) = [30, 10]"
    by (simp add: twoRooms_ffd properRecords_def roomRecords_def seatRecord_def isError_def)
  from capacity_safety [OF h1, of chainSections 10] h1 e1 e2 e3 show ?thesis by blast
qed

text \<open>
  Claim C7 (seat-range contiguity). With unique room numbers, the non-error records of
  every room number, in the order of the result, are chained from seat 1: the first
  starts at seat 1, each starts one seat after the end of the one before, and each ends
  at its start plus its students minus one. This holds of Best-Fit/FFD on every catalog,
  for the records that name a room.
\<close>

theorem seat_range_contiguity:
  assumes "uniqueRoomIds roomBlocks"
  shows "contiguous (fst (allocateSimpleGreedy roomBlocks sections minChunk))
   \<and> contiguous (fst (allocateGreedyMinChunk roomBlocks sections minChunk))
   \<and> contiguous (fst (allocateGreedyLookahead roomBlocks sections minChunk))
   \<and> contiguous (properRecords (fst (allocateBestFitFFD roomBlocks sections minChunk)))"
proof (intro conjI)
  show "contiguous (fst (allocateSimpleGreedy roomBlocks sections minChunk))"
    using simple_greedy_master(2) [OF assms] usageInv_contiguous by blast
  then show "contiguous (fst (allocateGreedyMinChunk roomBlocks sections minChunk))"
    by (simp only: min_chunk_same)
  show "contiguous (fst (allocateGreedyLookahead roomBlocks sections minChunk))"
    using lookahead_master(2) [OF assms] usageInv_contiguous by blast
  show "contiguous (properRecords (fst (allocateBestFitFFD roomBlocks sections minChunk)))"
    using ffd_master(1) [of roomBlocks sections minChunk] usageInv_contiguous
    unfolding ffdInv_def by blast
qed

theorem seat_range_contiguity_witness:
  "uniqueRoomIds twoRooms
   \<and> contiguous (fst (allocateSimpleGreedy twoRooms chainSections 10))
   \<and> contiguous (fst (allocateGreedyMinChunk twoRooms chainSections 10))
   \<and> contiguous (fst (allocateGreedyLookahead twoRooms chainSections 10))
   \<and> contiguous (properRecords (fst (allocateBestFitFFD twoRooms chainSections 10)))
   \<and> map (\<lambda>a. (startSeat a, endSeat a))
        (roomRecords ''APJ-1'' (fst (allocateSimpleGreedy twoRooms chainSections 10)))
       = [(Some 1, Some 30), (Some 31, Some 40)]
   \<and> map (\<lambda>a. (startSeat a, endSeat a))
        (roomRecords ''APJ-1'' (fst (allocateGreedyLookahead twoRooms chainSections 10)))
       = [(Some 1, Some 30), (Some 31, Some 40)]
   \<and> map (\<lambda>a. (startSeat a, endSeat a))
        (roomRecords ''APJ-1''
           (properRecords (fst (allocateBestFitFFD twoRooms chainSections 10))))
       = [(Some 1, Some 30), (Some 31, Some 40)]"
proof -
  have h1: "uniqueRoomIds twoRooms" by (rule twoRooms_unique)
  have e1: "map (\<lambda>a. (startSeat a, endSeat a))
        (roomRecords ''APJ-1'' (fst (allocateSimpleGreedy twoRooms chainSections 10)))
       = [(Some 1, Some 30), (Some 31, Some 40)]"
    by (simp add: twoRooms_greedy roomRecords_def seatRecord_def isError_def)
  have e2: "map (\<lambda>a. (startSeat a, endSeat a))
        (roomRecords ''APJ-1'' (fst (allocateGreedyLookahead twoRooms chainSections 10)))
       = [(Some 1, Some 30), (Some 31, Some 40)]"
    by (simp add: twoRooms_lookahead roomRecords_def seatRecord_def isError_def)
  have e3: "map (\<lambda>a. (startSeat a, endSeat a))
        (roomRecords ''APJ-1''
           (properRecords (fst (allocateBestFitFFD twoRooms chainSections 10))))
       = [(Some 1, Some 30), (Some 31, Some 40)]"
    by (simp add: twoRooms_ffd properRecords_def roomRecords_def seatRecord_def isError_def)
  from seat_range_contiguity [OF h1, of chainSections 10] h1 e1 e2 e3 show ?thesis by blast
qed

text \<open>
  Claim C9 as it is worded fails for a closed room whose number is \<^verbatim>\<open>"NO SPACE"\<close>, the
  room number that every error record carries: in \<open>markerCatalog\<close> room A seats 50 of
  the 100 students of X, the closed room is passed over, and the error record for the
  other 50 has the number of the closed room as its \<^verbatim>\<open>roomNo\<close>.
\<close>

theorem nonpositive_capacity_counterexample:
  "uniqueRoomIds markerCatalog \<and> markerRoom \<in> set (catalogRooms markerCatalog)
   \<and> capacity markerRoom \<le> 0
   \<and> map (\<lambda>a. (roomNo a, astudents a, isError a))
        (fst (allocateSimpleGreedy markerCatalog crowdSections 10))
       = [(''A'', 50, False), (no markerRoom, 50, True)]"
  by (simp add: markerCatalog_def markerRoom_def crowdSections_def uniqueRoomIds_def eval_defs)

text \<open>
  Best-Fit/FFD books every room object without a number under the key
  \<^verbatim>\<open>"undefined"\<close>, so a room of that number shares its key with them.
\<close>

lemma undefined_key_shared:
  "allocateBestFitFFD undefinedCatalog crowdSections 10
     = ([NaNRec ''X'' ''1'' 1], [(no undefinedRoom, None)])"
  by code_simp

text \<open>
  Claim C9 (rooms of non-positive capacity), as the code has it. Every strategy is a
  total function, so the run returns a result on every catalog. With unique room
  numbers, a room of the catalog whose capacity is not positive has no non-error record,
  its number is the \<^verbatim>\<open>roomNo\<close> of no record at all unless it is the marker
  \<^verbatim>\<open>"NO SPACE"\<close> of the error records, and it has no entry in the usage map; for
  Best-Fit/FFD the last is stated of every room number but \<^verbatim>\<open>"undefined"\<close>.
\<close>

theorem nonpositive_capacity_unused:
  assumes "uniqueRoomIds roomBlocks" "r \<in> set (catalogRooms roomBlocks)" "capacity r \<le> 0"
  shows "unusedRoom (no r) (allocateSimpleGreedy roomBlocks sections minChunk)
   \<and> unusedRoom (no r) (allocateGreedyMinChunk roomBlocks sections minChunk)
   \<and> unusedRoom (no r) (allocateGreedyLookahead roomBlocks sections minChunk)
   \<and> unusedRoomFFD (no r) (allocateBestFitFFD roomBlocks sections minChunk)"
proof (intro conjI)
  have un: "unusedRoom (no r) p" if "usageInv (snd p) (fst p) \<and> capacitySafe roomBlocks (fst p)"
    for p
    using unusedRoomI [of "snd p" "fst p" roomBlocks r] that assms by simp
  show "unusedRoom (no r) (allocateSimpleGreedy roomBlocks sections minChunk)"
    using simple_greedy_master(2) [OF assms(1)] by (rule un)
  then show "unusedRoom (no r) (allocateGreedyMinChunk roomBlocks sections minChunk)"
    by (simp only: min_chunk_same)
  show "unusedRoom (no r) (allocateGreedyLookahead roomBlocks sections minChunk)"
    using lookahead_master(2) [OF assms(1)] by (rule un)
  show "unusedRoomFFD (no r) (allocateBestFitFFD roomBlocks sections minChunk)"
  proof -
    obtain res u where eq: "allocateBestFitFFD roomBlocks sections minChunk = (res, u)"
      by (cases "allocateBestFitFFD roomBlocks sections minChunk") auto
    from ffd_master(1) [of roomBlocks sections minChunk]
    have inv: "ffdInv (orderedRooms orderedRoomBlocks roomBlocks) u res" by (simp add: eq)
    from ffd_master(2) [OF assms(1), of sections minChunk]
    have safe: "capacitySafe roomBlocks (properRecords res)" by (simp add: eq)
    from unusedRoomFFD_I [OF inv safe assms(2) assms(3)] show ?thesis by (simp add: eq)
  qed
qed

theorem nonpositive_capacity_unused_witness:
  "uniqueRoomIds closedCatalog \<and> closedRoom \<in> set (catalogRooms closedCatalog)
   \<and> capacity closedRoom \<le> 0
   \<and> unusedRoom ''APJ-1'' (allocateSimpleGreedy closedCatalog crowdSections 10)
   \<and> unusedRoom ''APJ-1'' (allocateGreedyMinChunk closedCatalog crowdSections 10)
   \<and> unusedRoom ''APJ-1'' (allocateGreedyLookahead closedCatalog crowdSections 10)
   \<and> unusedRoomFFD ''APJ-1'' (allocateBestFitFFD closedCatalog crowdSections 10)
   \<and> map (\<lambda>a. (roomNo a, astudents a))
        (fst (allocateSimpleGreedy closedCatalog crowdSections 10))
       = [(''APJ-2'', 40), (''NO SPACE'', 60)]
   \<and> map (\<lambda>a. (roomNo a, astudents a))
        (fst (allocateGreedyLookahead closedCatalog crowdSections 10))
       = [(''APJ-2'', 40), (''NO SPACE'', 60)]
   \<and> map (\<lambda>a. (roomNo a, astudents a))
        (properRecords (fst (allocateBestFitFFD closedCatalog crowdSections 10)))
       = [(''APJ-2'', 40)]
   \<and> map_of (snd (allocateBestFitFFD closedCatalog crowdSections 10)) ''APJ-1'' = None"
proof -
  have h1: "uniqueRoomIds closedCatalog" by (rule closedCatalog_unique)
  have h2: "closedRoom \<in> set (catalogRooms closedCatalog)"
    by (simp add: closedCatalog_def catalogRooms_def)
  have h3: "capacity closedRoom \<le> 0" by (simp add: closedRoom_def)
  have k: "no closedRoom = ''APJ-1''" by (simp add: closedRoom_def)
  have e1: "map (\<lambda>a. (roomNo a, astudents a))
        (fst (allocateSimpleGreedy closedCatalog crowdSections 10))
       = [(''APJ-2'', 40), (''NO SPACE'', 60)]"
    by (simp add: closedCatalog_greedy seatRecord_def errorRecord_def)
  have e2: "map (\<lambda>a. (roomNo a, astudents a))
        (fst (allocateGreedyLookahead closedCatalog crowdSections 10))
       = [(''APJ-2'', 40), (''NO SPACE'', 60)]"
    by (simp add: closedCatalog_lookahead seatRecord_def errorRecord_def)
  have e3: "map (\<lambda>a. (roomNo a, astudents a))
        (properRecords (fst (allocateBestFitFFD closedCatalog crowdSections 10)))
       = [(''APJ-2'', 40)]"
    by (simp add: closedCatalog_ffd properRecords_def seatRecord_def)
  have e4: "map_of (snd (allocateBestFitFFD closedCatalog crowdSections 10)) ''APJ-1'' = None"
    by (simp add: closedCatalog_ffd)
  from nonpositive_capacity_unused [OF h1 h2 h3, of crowdSections 10] h1 h2 h3 e1 e2 e3 e4
  show ?thesis unfolding k by blast
qed

text \<open>
  The usage map and the records of the first three strategies, and of Best-Fit/FFD on a
  catalog that has every room of its written-down order: with unique room numbers, the
  usage map has an entry for exactly the room numbers that have a non-error record, the
  entry is the sum of the students of these records, and that sum is positive.
\<close>

lemma usage_in_step:
  assumes "uniqueRoomIds roomBlocks"
  shows "usageConsistent (allocateSimpleGreedy roomBlocks sections minChunk)
   \<and> usageConsistent (allocateGreedyMinChunk roomBlocks sections minChunk)
   \<and> usageConsistent (allocateGreedyLookahead roomBlocks sections minChunk)
   \<and> (catalogCovers orderedRoomBlocks roomBlocks \<longrightarrow>
        (\<exists>res u. allocateBestFitFFD roomBlocks sections minChunk = plainRun (res, u)
                 \<and> usageConsistent (res, u)))"
proof (intro conjI impI)
  have uc: "usageConsistent p" if "usageInv (snd p) (fst p) \<and> capacitySafe roomBlocks (fst p)"
    for p
    using usageInv_consistent [of "snd p" "fst p"] that by simp
  show "usageConsistent (allocateSimpleGreedy roomBlocks sections minChunk)"
    using simple_greedy_master(2) [OF assms] by (rule uc)
  then show "usageConsistent (allocateGreedyMinChunk roomBlocks sections minChunk)"
    by (simp only: min_chunk_same)
  show "usageConsistent (allocateGreedyLookahead roomBlocks sections minChunk)"
    using lookahead_master(2) [OF assms] by (rule uc)
  show "\<exists>res u. allocateBestFitFFD roomBlocks sections minChunk = plainRun (res, u)
                 \<and> usageConsistent (res, u)"
    if "catalogCovers orderedRoomBlocks roomBlocks"
    using ffd_covered [OF that, of sections minChunk] usageInv_consistent by blast
qed

text \<open>
  Claim C10 (the usage map and the records) at the catalog of the worked scenario, rooms
  A, B and C, with the groups X = 40 and Y = 60 and \<open>minChunk = 10\<close>, under Best-Fit/FFD.
  The catalog has none of the rooms of the written-down order, so every room object of
  the strategy is without number and capacity, although line 422 asserts that the room
  was found (\<^verbatim>\<open>roomObj!\<close>). For each group the first-fit pass takes the first of them:
  it pushes a record of \<^verbatim>\<open>NaN\<close> students with \<^verbatim>\<open>roomNo: undefined\<close> and start seat 1 and
  writes \<^verbatim>\<open>NaN\<close> to the usage map under the key \<^verbatim>\<open>"undefined"\<close>. The usage map so has an
  entry that is the number of no room and holds no sum of students, and no error record
  tells that the 100 students have no seat.
\<close>

theorem room_usage_nan:
  "allocateBestFitFFD scenarioBlocks scenarioSections 10
     = ([NaNRec ''Y'' ''1'' 1, NaNRec ''X'' ''1'' 1], [(''undefined'', None)])"
  by code_simp

subsection \<open>The guards\<close>

text \<open>
  Claim C3 (min-chunk respect) at rooms C(50), A(20), B(3), groups X = 50 and Y = 5,
  \<open>minChunk = 10\<close>. X fills C. For Y the guard refuses the empty room A, which would
  seat all of Y, and then lets 3 students of Y start the empty room B, since the chunk
  is not the whole remainder and the remainder is not above the threshold; 2 students
  are left over. The record of B has fewer students than \<open>minChunk\<close>, B was empty, and C
  was in use.
\<close>

theorem min_chunk_start_of_room:
  "allocateSimpleGreedy cornerBlocks cornerSections 10 =
     ([seatRecord ''X'' ''1'' ''C'' 50 1 50 (Some False) ''Main Block'',
       seatRecord ''Y'' ''1'' ''B'' 3 1 3 (Some True) ''Main Block'',
       errorRecord \<lparr>sid = 2, branch = ''Y'', sect = ''1'', students = 5\<rparr> 2],
      [(''C'', 50), (''B'', 3)])"
  by (simp add: cornerBlocks_def cornerSections_def eval_defs)

text \<open>
  Claim C4 as it is worded fails: with one room A(50), groups X = 45 and Y = 20 and
  \<open>minChunk = 10\<close>, room A has 45 seats filled and 5 to spare when Y is scanned, and
  the guard skips it: Y gets no seat.
\<close>

theorem topping_off_counterexample:
  "allocateSimpleGreedy hallBlocks hallSections 10 =
     ([seatRecord ''X'' ''1'' ''A'' 45 1 45 (Some False) ''Main Block'',
       errorRecord \<lparr>sid = 2, branch = ''Y'', sect = ''1'', students = 20\<rparr> 20],
      [(''A'', 45)])"
  by (simp add: hallBlocks_def hallSections_def eval_defs)

text \<open>
  Claim C4, as the code has it: in the scan of Simple Greedy, a room that has seats
  filled and seats to spare, met with a remainder that is not 0, is skipped when the
  chunk \<open>min spare remaining\<close> is below \<open>minChunk\<close> and the remainder is above
  \<open>minChunk\<close>; in every other case the chunk is placed in it.
\<close>

theorem topping_off_rule:
  assumes "remaining \<noteq> 0" "usageOf roomUsage (no room) \<noteq> 0"
    and "0 < capacity room - usageOf roomUsage (no room)"
  shows "scanRooms minChunk allRooms s (room # rest) (remaining, roomUsage, result) =
     (if min (capacity room - usageOf roomUsage (no room)) remaining < minChunk
         \<and> remaining > minChunk
      then scanRooms minChunk allRooms s rest (remaining, roomUsage, result)
      else scanRooms minChunk allRooms s rest
             (remaining - min (capacity room - usageOf roomUsage (no room)) remaining,
              AList.update (no room)
                (usageOf roomUsage (no room)
                   + min (capacity room - usageOf roomUsage (no room)) remaining) roomUsage,
              result @ [greedyRecord s room (usageOf roomUsage (no room))
                          (min (capacity room - usageOf roomUsage (no room)) remaining)]))"
  using assms by (simp add: Let_def guardSkips_def)

theorem topping_off_rule_witness:
  "(20::int) \<noteq> 0
   \<and> usageOf [(''A'', 45)] (no \<lparr>no = ''A'', capacity = 50, rows = [], rblockName = ''Main Block''\<rparr>) \<noteq> 0
   \<and> 0 < capacity \<lparr>no = ''A'', capacity = 50, rows = [], rblockName = ''Main Block''\<rparr>
          - usageOf [(''A'', 45)] (no \<lparr>no = ''A'', capacity = 50, rows = [], rblockName = ''Main Block''\<rparr>)
   \<and> scanRooms 10 [] \<lparr>sid = 2, branch = ''Y'', sect = ''1'', students = 20\<rparr>
        [\<lparr>no = ''A'', capacity = 50, rows = [], rblockName = ''Main Block''\<rparr>]
        (20, [(''A'', 45)], [])
      = (20, [(''A'', 45)], [])"
proof -
  let ?room = "\<lparr>no = ''A'', capacity = 50, rows = [], rblockName = ''Main Block''\<rparr>"
  have h1: "(20::int) \<noteq> 0" by simp
  have h2: "usageOf [(''A'', 45)] (no ?room) \<noteq> 0" by (simp add: usageOf_def)
  have h3: "0 < capacity ?room - usageOf [(''A'', 45)] (no ?room)" by (simp add: usageOf_def)
  from topping_off_rule [OF h1 h2 h3, of 10 "[]"
      "\<lparr>sid = 2, branch = ''Y'', sect = ''1'', students = 20\<rparr>" "[]" "[]"] h1 h2 h3
  show ?thesis by (simp add: usageOf_def)
qed

text \<open>
  Claim C5 (the guard of Greedy Lookahead) at rooms A(50) and B, groups X = 50 and
  Y = 5, \<open>minChunk = 10\<close>. X fills A. When B has 6 seats, Y is the largest group that
  fits and the guard of that path refuses to start the empty room with 5 students: Y
  is left over. When B has 5 seats, Y is a perfect fit, and the perfect-fit path has no
  guard: the 5 students start the empty room B although A is in use.
\<close>

theorem lookahead_perfect_fit_unguarded:
  "allocateGreedyLookahead (pairBlocks 5) cornerSections 10 =
     ([seatRecord ''X'' ''1'' ''A'' 50 1 50 None ''Main Block'',
       seatRecord ''Y'' ''1'' ''B'' 5 1 5 None ''Main Block''],
      [(''A'', 50), (''B'', 5)])
   \<and> allocateGreedyLookahead (pairBlocks 6) cornerSections 10 =
     ([seatRecord ''X'' ''1'' ''A'' 50 1 50 None ''Main Block'',
       errorRecord \<lparr>sid = 2, branch = ''Y'', sect = ''1'', students = 5\<rparr> 5],
      [(''A'', 50)])"
  by code_simp


subsection \<open>The block cursor\<close>

lemma cursorBefore_mono:
  assumes "i \<le> j"
  shows "cursorBefore blocks minChunk allRooms secs i \<le> cursorBefore blocks minChunk allRooms secs j"
proof -
  obtain u res mbi where st:
    "ffdSections blocks minChunk allRooms (take i secs) ([], [], 0) = (u, res, mbi)"
    by (cases "ffdSections blocks minChunk allRooms (take i secs) ([], [], 0)") auto
  obtain u' res' mbi' where st':
    "ffdSections blocks minChunk allRooms (drop i (take j secs)) (u, res, mbi) = (u', res', mbi')"
    by (cases "ffdSections blocks minChunk allRooms (drop i (take j secs)) (u, res, mbi)") auto
  from assms have "take j secs = take i secs @ drop i (take j secs)"
    by (metis append_take_drop_id min.absorb_iff1 take_take)
  then have "ffdSections blocks minChunk allRooms (take j secs) ([], [], 0) = (u', res', mbi')"
    using st st' ffdSections_append [of blocks minChunk allRooms "take i secs" "drop i (take j secs)"]
    by simp
  with st ffdSections_cursor [OF st'] show ?thesis by (simp add: cursorBefore_def)
qed

lemma cursorBefore_in_range:
  assumes "blocks \<noteq> []"
  shows "cursorBefore blocks minChunk allRooms secs i < length blocks"
proof -
  obtain u res mbi where st:
    "ffdSections blocks minChunk allRooms (take i secs) ([], [], 0) = (u, res, mbi)"
    by (cases "ffdSections blocks minChunk allRooms (take i secs) ([], [], 0)") auto
  from ffdSections_cursor [OF st] assms st show ?thesis by (simp add: cursorBefore_def)
qed

lemma ffdWhile_iteration:
  assumes "0 < remaining"
  shows "ffdWhile blocks minChunk allRooms s (remaining, u, res, mbi) = (Some remaining, u, res, mbi)
     \<or> (\<exists>k t a. 0 < t \<and> \<not> isError a \<and> roomNo a = k \<and> astudents a = t
          \<and> ffdWhile blocks minChunk allRooms s (remaining, u, res, mbi)
            = ffdWhile blocks minChunk allRooms s
                (remaining - t, AList.update k (Some (usedOf u k + t)) u, res @ [Rec a],
                 unlock blocks (AList.update k (Some (usedOf u k + t)) u) mbi))
     \<or> (\<exists>st. ffdWhile blocks minChunk allRooms s (remaining, u, res, mbi)
            = (None, AList.update ''undefined'' None u, res @ [NaNRec (branch s) (sect s) st],
               unlock blocks (AList.update ''undefined'' None u) mbi))"
proof (cases "fst (bestFitScan blocks mbi u remaining allRooms 0 (None, None))")
  case (Some best)
  obtain idx room where "best = (idx, room)" by (cases best)
  with Some have bf:
    "fst (bestFitScan blocks mbi u remaining allRooms 0 (None, None)) = Some (idx, room)"
    by simp
  let ?used = "usedOf u (no room)"
  show ?thesis
  proof (cases "bestGuardBreaks minChunk allRooms u s ?used remaining")
    case True
    from ffdWhile_best_break [OF assms bf True] show ?thesis by simp
  next
    case False
    have "0 < remaining \<and> \<not> isError (bestRecord s room ?used remaining)
          \<and> roomNo (bestRecord s room ?used remaining) = no room
          \<and> astudents (bestRecord s room ?used remaining) = remaining
          \<and> ffdWhile blocks minChunk allRooms s (remaining, u, res, mbi)
            = ffdWhile blocks minChunk allRooms s
                (remaining - remaining, AList.update (no room) (Some (?used + remaining)) u,
                 res @ [Rec (bestRecord s room ?used remaining)],
                 unlock blocks (AList.update (no room) (Some (?used + remaining)) u) mbi)"
      using ffdWhile_best [OF assms bf False] assms by simp
    then show ?thesis by blast
  qed
next
  case None
  show ?thesis
  proof (cases "firstFitScan minChunk allRooms blocks mbi u remaining allRooms")
    case NoFit
    from ffdWhile_none [OF assms None NoFit] show ?thesis by simp
  next
    case (Fit room used t)
    from firstFitScan_room [OF Fit] have used: "used = usedOf u (no room)" by simp
    from firstFitScan_positive [OF Fit assms] have t: "0 < t" by simp
    have "0 < t \<and> \<not> isError (greedyRecord s room used t)
          \<and> roomNo (greedyRecord s room used t) = no room
          \<and> astudents (greedyRecord s room used t) = t
          \<and> ffdWhile blocks minChunk allRooms s (remaining, u, res, mbi)
            = ffdWhile blocks minChunk allRooms s
                (remaining - t, AList.update (no room) (Some (usedOf u (no room) + t)) u,
                 res @ [Rec (greedyRecord s room used t)],
                 unlock blocks (AList.update (no room) (Some (usedOf u (no room) + t)) u) mbi)"
      using ffdWhile_first [OF assms None Fit] t used by simp
    then show ?thesis by blast
  next
    case (FitNaN used)
    from ffdWhile_nan [OF assms None FitNaN] show ?thesis by blast
  qed
qed

lemma frontBack_run:
  "ffdWhile [[''A''], [''B'']] 1 frontBack \<lparr>sid = 1, branch = ''X'', sect = ''1'', students = 15\<rparr>
     (15, [], [], 0)
   = (Some 0, [(''A'', Some 10), (''B'', Some 5)],
      [Rec (seatRecord ''X'' ''1'' ''A'' 10 1 10 (Some True) ''Front''),
       Rec (seatRecord ''X'' ''1'' ''B'' 5 1 5 None ''Back'')], 1)"
  by code_simp

text \<open>
  Claim C8 (block unlock). The cursor with which the loop reaches a later group is at
  least the cursor with which it reached an earlier one, so the later group sees every
  block the earlier one saw, and the cursor stays an index of the block list; the loop
  for one group never lowers the cursor; each turn of that loop either leaves it without
  a placement, or makes one placement in a room and goes on with the cursor \<open>unlock\<close>
  gives for the new usage, or makes its placement for a room object without a number
  and leaves with the cursor \<open>unlock\<close> gives for the new usage; and \<open>unlock\<close> moves the
  cursor by one exactly when every room of the block at the cursor is in use and the
  block is not the last one, and leaves it otherwise.
\<close>

theorem block_unlock_monotone:
  "(i \<le> j \<longrightarrow>
      cursorBefore blocks minChunk allRooms sectionLeft i
        \<le> cursorBefore blocks minChunk allRooms sectionLeft j
      \<and> {b. b \<le> cursorBefore blocks minChunk allRooms sectionLeft i}
          \<subseteq> {b. b \<le> cursorBefore blocks minChunk allRooms sectionLeft j})
   \<and> (blocks \<noteq> [] \<longrightarrow> cursorBefore blocks minChunk allRooms sectionLeft i < length blocks)
   \<and> (ffdWhile blocks minChunk allRooms s (remaining, roomUsage, result, maxBlockIdx)
         = (remaining', roomUsage', result', maxBlockIdx') \<longrightarrow> maxBlockIdx \<le> maxBlockIdx')
   \<and> (0 < remaining \<longrightarrow>
        ffdWhile blocks minChunk allRooms s (remaining, roomUsage, result, maxBlockIdx)
          = (Some remaining, roomUsage, result, maxBlockIdx)
        \<or> (\<exists>k t a. 0 < t \<and> \<not> isError a \<and> roomNo a = k \<and> astudents a = t
              \<and> ffdWhile blocks minChunk allRooms s (remaining, roomUsage, result, maxBlockIdx)
                = ffdWhile blocks minChunk allRooms s
                    (remaining - t, AList.update k (Some (usedOf roomUsage k + t)) roomUsage,
                     result @ [Rec a],
                     unlock blocks (AList.update k (Some (usedOf roomUsage k + t)) roomUsage)
                       maxBlockIdx))
        \<or> (\<exists>st. ffdWhile blocks minChunk allRooms s (remaining, roomUsage, result, maxBlockIdx)
                = (None, AList.update ''undefined'' None roomUsage,
                   result @ [NaNRec (branch s) (sect s) st],
                   unlock blocks (AList.update ''undefined'' None roomUsage) maxBlockIdx)))
   \<and> (unlock blocks roomUsage maxBlockIdx = Suc maxBlockIdx)
       = (list_all (\<lambda>rn. usedOf roomUsage rn > 0) (blocks ! maxBlockIdx)
          \<and> Suc maxBlockIdx < length blocks)
   \<and> (unlock blocks roomUsage maxBlockIdx = Suc maxBlockIdx
       \<or> unlock blocks roomUsage maxBlockIdx = maxBlockIdx)"
proof (intro conjI impI)
  show "cursorBefore blocks minChunk allRooms sectionLeft i
        \<le> cursorBefore blocks minChunk allRooms sectionLeft j" if "i \<le> j"
    using that by (rule cursorBefore_mono)
  then show "{b. b \<le> cursorBefore blocks minChunk allRooms sectionLeft i}
          \<subseteq> {b. b \<le> cursorBefore blocks minChunk allRooms sectionLeft j}" if "i \<le> j"
    using that by auto
  show "cursorBefore blocks minChunk allRooms sectionLeft i < length blocks" if "blocks \<noteq> []"
    using that by (rule cursorBefore_in_range)
  show "maxBlockIdx \<le> maxBlockIdx'"
    if "ffdWhile blocks minChunk allRooms s (remaining, roomUsage, result, maxBlockIdx)
         = (remaining', roomUsage', result', maxBlockIdx')"
    using ffdWhile_cursor [OF that] by simp
  show "ffdWhile blocks minChunk allRooms s (remaining, roomUsage, result, maxBlockIdx)
          = (Some remaining, roomUsage, result, maxBlockIdx)
        \<or> (\<exists>k t a. 0 < t \<and> \<not> isError a \<and> roomNo a = k \<and> astudents a = t
              \<and> ffdWhile blocks minChunk allRooms s (remaining, roomUsage, result, maxBlockIdx)
                = ffdWhile blocks minChunk allRooms s
                    (remaining - t, AList.update k (Some (usedOf roomUsage k + t)) roomUsage,
                     result @ [Rec a],
                     unlock blocks (AList.update k (Some (usedOf roomUsage k + t)) roomUsage)
                       maxBlockIdx))
        \<or> (\<exists>st. ffdWhile blocks minChunk allRooms s (remaining, roomUsage, result, maxBlockIdx)
                = (None, AList.update ''undefined'' None roomUsage,
                   result @ [NaNRec (branch s) (sect s) st],
                   unlock blocks (AList.update ''undefined'' None roomUsage) maxBlockIdx))"
    if "0 < remaining"
    using that by (rule ffdWhile_iteration)
  show "(unlock blocks roomUsage maxBlockIdx = Suc maxBlockIdx)
       = (list_all (\<lambda>rn. usedOf roomUsage rn > 0) (blocks ! maxBlockIdx)
          \<and> Suc maxBlockIdx < length blocks)"
    by (rule unlock_advances)
  show "unlock blocks roomUsage maxBlockIdx = Suc maxBlockIdx
       \<or> unlock blocks roomUsage maxBlockIdx = maxBlockIdx"
    by (simp add: unlock_def)
qed

theorem block_unlock_monotone_witness:
  "(0::nat) \<le> 1 \<and> [[''A''], [''B'']] \<noteq> [] \<and> (0::int) < 15
   \<and> ffdWhile [[''A''], [''B'']] 1 frontBack \<lparr>sid = 1, branch = ''X'', sect = ''1'', students = 15\<rparr>
        (15, [], [], 0)
      = (Some 0, [(''A'', Some 10), (''B'', Some 5)],
         [Rec (seatRecord ''X'' ''1'' ''A'' 10 1 10 (Some True) ''Front''),
          Rec (seatRecord ''X'' ''1'' ''B'' 5 1 5 None ''Back'')], 1)
   \<and> cursorBefore [[''A''], [''B'']] 1 frontBack
        [\<lparr>sid = 1, branch = ''X'', sect = ''1'', students = 15\<rparr>] 0
      \<le> cursorBefore [[''A''], [''B'']] 1 frontBack
        [\<lparr>sid = 1, branch = ''X'', sect = ''1'', students = 15\<rparr>] 1
   \<and> cursorBefore [[''A''], [''B'']] 1 frontBack
        [\<lparr>sid = 1, branch = ''X'', sect = ''1'', students = 15\<rparr>] 0 < length [[''A''], [''B'']]
   \<and> (0::nat) \<le> 1"
proof -
  have h1: "(0::nat) \<le> 1" by simp
  have h2: "[[''A''], [''B'']] \<noteq> ([] :: string list list)" by simp
  have h3: "(0::int) < 15" by simp
  note h4 = frontBack_run
  from block_unlock_monotone
    [of 0 1 "[[''A''], [''B'']]" 1 frontBack
        "[\<lparr>sid = 1, branch = ''X'', sect = ''1'', students = 15\<rparr>]"
        "\<lparr>sid = 1, branch = ''X'', sect = ''1'', students = 15\<rparr>" 15 "[]" "[]" 0
        "Some 0" "[(''A'', Some 10), (''B'', Some 5)]"
        "[Rec (seatRecord ''X'' ''1'' ''A'' 10 1 10 (Some True) ''Front''),
          Rec (seatRecord ''X'' ''1'' ''B'' 5 1 5 None ''Back'')]" 1]
    h1 h2 h3 h4
  show ?thesis by simp
qed

subsection \<open>The worked scenario\<close>

text \<open>
  Claim C6, as the code runs it. Simple Greedy sorts the groups by size first, so Y (60) is
  seated before X (40): Y takes room A whole (seats 1-50) and 10 seats of B (1-10); X
  takes the other 20 seats of B (11-30) and room C (1-20). There is no error record, 100
  students sit on 100 seats, and the efficiency is 100 percent.
\<close>

theorem simple_greedy_scenario:
  "allocateSimpleGreedy scenarioBlocks scenarioSections 10 =
     ([seatRecord ''Y'' ''1'' ''A'' 50 1 50 (Some True) ''Main Block'',
       seatRecord ''Y'' ''1'' ''B'' 10 1 10 (Some True) ''Main Block'',
       seatRecord ''X'' ''1'' ''B'' 20 11 30 (Some True) ''Main Block'',
       seatRecord ''X'' ''1'' ''C'' 20 1 20 (Some True) ''Main Block''],
      [(''A'', 50), (''B'', 30), (''C'', 20)])
   \<and> filter isError (fst (allocateSimpleGreedy scenarioBlocks scenarioSections 10)) = []
   \<and> allocatedStudents (calcStats scenarioBlocks scenarioSections
        (allocateSimpleGreedy scenarioBlocks scenarioSections 10)) = 100
   \<and> totalCapacity (calcStats scenarioBlocks scenarioSections
        (allocateSimpleGreedy scenarioBlocks scenarioSections 10)) = 100
   \<and> efficiency (calcStats scenarioBlocks scenarioSections
        (allocateSimpleGreedy scenarioBlocks scenarioSections 10)) = 100"
proof -
  have run: "allocateSimpleGreedy scenarioBlocks scenarioSections 10 =
     ([seatRecord ''Y'' ''1'' ''A'' 50 1 50 (Some True) ''Main Block'',
       seatRecord ''Y'' ''1'' ''B'' 10 1 10 (Some True) ''Main Block'',
       seatRecord ''X'' ''1'' ''B'' 20 11 30 (Some True) ''Main Block'',
       seatRecord ''X'' ''1'' ''C'' 20 1 20 (Some True) ''Main Block''],
      [(''A'', 50), (''B'', 30), (''C'', 20)])"
    by (simp add: scenarioBlocks_def scenarioSections_def eval_defs)
  show ?thesis
    unfolding run
    by (simp add: scenarioBlocks_def scenarioSections_def eval_defs)
qed

text \<open>
  The scenario as claim C6 words it does not occur: the only record of room A is the 50
  students of Y, so X is not in A at seats 1-40 and Y does not get seats 41-50 there.
\<close>

theorem simple_greedy_scenario_counterexample:
  "map abranch (roomRecords ''A'' (fst (allocateSimpleGreedy scenarioBlocks scenarioSections 10)))
     = [''Y'']
   \<and> map astudents (roomRecords ''A'' (fst (allocateSimpleGreedy scenarioBlocks scenarioSections 10)))
     = [50]"
  by (simp add: scenarioBlocks_def scenarioSections_def eval_defs)

end
